theory Spec2Isabelle
  imports Complex_Main
begin

section \<open>The outbound dispatch subsystem of server.js\<close>

text \<open>
  The development embeds the queue, the drain loop \<open>processMessageQueue\<close>, the phone
  number rule \<open>formatPhoneNumber\<close> and the message templates of \<open>src/server.js\<close>.
  JavaScript strings are modelled as \<open>string\<close>; the functions modelled here look only
  at ASCII digits and white space, so the width of a code unit plays no role.
\<close>

subsection \<open>JavaScript values as they arrive in a JSON body\<close>

text \<open>
  A field of a request object holds a scalar or is missing. A number of a JSON body is
  a rational (the model admits every rational, also those a double only approximates);
  arrays and nested objects do not occur in the fields read by the code modelled here.
\<close>

datatype jsval = Undefined | Null | Bool bool | Num rat | Str string

fun truthy :: "jsval \<Rightarrow> bool" where
  "truthy Undefined = False"
| "truthy Null = False"
| "truthy (Bool b) = b"
| "truthy (Num n) = (n \<noteq> 0)"
| "truthy (Str s) = (s \<noteq> [])"

text \<open>\<open>a || b\<close> on values.\<close>

definition js_or :: "jsval \<Rightarrow> jsval \<Rightarrow> jsval" where
  "js_or a b = (if truthy a then a else b)"

subsection \<open>formatPhoneNumber (server.js lines 76 to 82)\<close>

text \<open>\<open>\<D>\<close> of the regular expression is every code unit outside \<open>0\<close> to \<open>9\<close>.\<close>

definition is_digit :: "char \<Rightarrow> bool" where
  "is_digit c = (let n = (of_char c :: nat) in 48 \<le> n \<and> n \<le> 57)"

text \<open>\<open>phone.replace(/\D/g, '')\<close>: every non-digit is deleted.\<close>

definition replace_non_digits :: "string \<Rightarrow> string" where
  "replace_non_digits s = filter is_digit s"

definition startsWith :: "string \<Rightarrow> string \<Rightarrow> bool" where
  "startsWith s p = (take (length p) s = p)"

text \<open>
  \<open>s.slice(k)\<close> with one argument: a negative \<open>k\<close> counts from the end and is clamped
  at the start of the string, a positive one is clamped at its end.
\<close>

definition slice_from :: "int \<Rightarrow> string \<Rightarrow> string" where
  "slice_from k s =
     (let len = int (length s);
          start = (if k < 0 then max (len + k) 0 else min k len)
      in drop (nat start) s)"

definition formatPhoneNumber :: "string \<Rightarrow> string" where
  "formatPhoneNumber phone =
     (let digits = replace_non_digits phone in
      if startsWith digits ''91'' \<and> length digits = 12 then digits
      else if length digits = 10 then ''91'' @ digits
      else if length digits \<ge> 10 then ''91'' @ slice_from (- 10) digits
      else digits)"

text \<open>
  The rule of the specification, written from its five steps: the last ten digits are
  the first ten of the reversed digit string, reversed back.
\<close>

definition normalize_spec :: "string \<Rightarrow> string" where
  "normalize_spec raw =
     (let d = filter is_digit raw in
      if take 2 d = ''91'' \<and> length d = 12 then d
      else if length d = 10 then ''91'' @ d
      else if 10 \<le> length d then ''91'' @ rev (take 10 (rev d))
      else d)"

subsection \<open>Facts about formatPhoneNumber\<close>

lemma replace_non_digits_idem:
  "replace_non_digits (replace_non_digits s) = replace_non_digits s"
  by (simp add: replace_non_digits_def)

lemma replace_non_digits_id:
  "list_all is_digit s \<Longrightarrow> replace_non_digits s = s"
  by (induction s) (simp_all add: replace_non_digits_def)

lemma replace_non_digits_all: "list_all is_digit (replace_non_digits s)"
  by (simp add: replace_non_digits_def list_all_iff)

lemma is_digit_9: "is_digit CHR ''9''"
  by (simp add: is_digit_def)

lemma is_digit_1: "is_digit CHR ''1''"
  by (simp add: is_digit_def)

lemma slice_from_last10:
  "10 \<le> length s \<Longrightarrow> slice_from (- 10) s = drop (length s - 10) s"
  by (simp add: slice_from_def Let_def nat_diff_distrib')

lemma drop_as_rev_take: "drop (length s - n) s = rev (take n (rev s))"
  by (simp add: take_rev)

lemma slice_from_length: "10 \<le> length s \<Longrightarrow> length (slice_from (- 10) s) = 10"
  by (simp add: slice_from_last10)

lemma slice_from_all: "list_all P s \<Longrightarrow> list_all P (slice_from k s)"
  by (auto simp: slice_from_def Let_def list_all_iff dest: in_set_dropD)

text \<open>Every result that carries the prefix is twelve digits starting with 91.\<close>

lemma prefixed_fixed:
  assumes "list_all is_digit t" and "length t = 10"
  shows "formatPhoneNumber (''91'' @ t) = ''91'' @ t"
proof -
  have "replace_non_digits (''91'' @ t) = ''91'' @ t"
    using assms(1) by (intro replace_non_digits_id) (simp add: is_digit_9 is_digit_1)
  then show ?thesis
    using assms(2) by (simp add: formatPhoneNumber_def startsWith_def)
qed

text \<open>
  C4. For every string, formatPhoneNumber is the five-step rule of the specification
  (strip the non-digits; twelve digits starting with 91 are returned as they are; ten
  digits get the prefix 91; more than ten digits give 91 and the last ten; fewer than
  ten are returned stripped), and every string of exactly ten digits \<open>d\<close> is mapped to
  91 followed by \<open>d\<close>. The function is total on strings: no branch raises.
\<close>

theorem formatPhoneNumber_five_steps:
  "formatPhoneNumber raw = normalize_spec raw \<and>
   (length d = 10 \<and> list_all is_digit d \<longrightarrow> formatPhoneNumber d = ''91'' @ d)"
proof
  have sw: "\<And>s. startsWith s ''91'' = (take 2 s = ''91'')"
    by (simp add: startsWith_def numeral_2_eq_2)
  show "formatPhoneNumber raw = normalize_spec raw"
    unfolding formatPhoneNumber_def normalize_spec_def replace_non_digits_def Let_def sw
    using slice_from_last10 [of "filter is_digit raw"]
      drop_as_rev_take [of "filter is_digit raw" 10]
    by (cases "10 \<le> length (filter is_digit raw)") simp_all
next
  show "length d = 10 \<and> list_all is_digit d \<longrightarrow> formatPhoneNumber d = ''91'' @ d"
  proof
    assume h: "length d = 10 \<and> list_all is_digit d"
    then have "replace_non_digits d = d"
      by (simp add: replace_non_digits_id)
    with h show "formatPhoneNumber d = ''91'' @ d"
      by (simp add: formatPhoneNumber_def)
  qed
qed

theorem formatPhoneNumber_five_steps_witness:
  "formatPhoneNumber ''+91 (98765) 43210'' = normalize_spec ''+91 (98765) 43210'' \<and>
   length ''9876543210'' = 10 \<and> list_all is_digit ''9876543210'' \<and>
   formatPhoneNumber ''9876543210'' = ''919876543210''"
  using formatPhoneNumber_five_steps [of "''+91 (98765) 43210''" "''9876543210''"]
  by (simp add: is_digit_def)

text \<open>
  C9. formatPhoneNumber is idempotent on every string: formatting a formatted number
  gives the formatted number again.
\<close>

theorem formatPhoneNumber_idempotent:
  "formatPhoneNumber (formatPhoneNumber x) = formatPhoneNumber x"
proof -
  let ?d = "replace_non_digits x"
  let ?P = "startsWith ?d ''91'' \<and> length ?d = 12"
  have all: "list_all is_digit ?d" by (rule replace_non_digits_all)
  have unf: "formatPhoneNumber x =
      (if ?P then ?d else if length ?d = 10 then ''91'' @ ?d
       else if 10 \<le> length ?d then ''91'' @ slice_from (- 10) ?d else ?d)"
    by (simp add: formatPhoneNumber_def Let_def)
  have unf': "formatPhoneNumber ?d =
      (if ?P then ?d else if length ?d = 10 then ''91'' @ ?d
       else if 10 \<le> length ?d then ''91'' @ slice_from (- 10) ?d else ?d)"
    by (simp add: formatPhoneNumber_def Let_def replace_non_digits_idem)
  show ?thesis
  proof (cases ?P)
    case True
    then show ?thesis using unf unf' by simp
  next
    case nP: False
    show ?thesis
    proof (cases "length ?d = 10")
      case True
      then have "formatPhoneNumber x = ''91'' @ ?d" using unf nP by simp
      then show ?thesis using prefixed_fixed [OF all True] by simp
    next
      case n10: False
      show ?thesis
      proof (cases "10 \<le> length ?d")
        case True
        have r: "formatPhoneNumber x = ''91'' @ slice_from (- 10) ?d"
          using unf nP n10 True by simp
        have "list_all is_digit (slice_from (- 10) ?d)" using all by (rule slice_from_all)
        moreover have "length (slice_from (- 10) ?d) = 10" using True by (rule slice_from_length)
        ultimately show ?thesis using r prefixed_fixed by simp
      next
        case False
        then show ?thesis using unf unf' nP n10 by simp
      qed
    qed
  qed
qed

theorem formatPhoneNumber_idempotent_witness:
  "formatPhoneNumber (formatPhoneNumber ''0091-98765-43210'') = ''919876543210''"
  using formatPhoneNumber_idempotent [of "''0091-98765-43210''"]
  by (simp add: formatPhoneNumber_def replace_non_digits_def is_digit_def startsWith_def
      slice_from_def)

section \<open>The message queue and its drain loop\<close>

subsection \<open>Queue entries, the session and the globals (server.js lines 27 to 33)\<close>

text \<open>
  What the catch block of the drain loop can catch: the \<open>TypeError\<close> of
  \<open>phone.replace\<close> on a number that is not a string, the rejection of
  \<open>client.sendMessage\<close>, and an error thrown by a status callback. The string is
  \<open>error.message\<close>.
\<close>

datatype js_error = TypeError | Rejected string | Raised string

text \<open>The arguments of a status callback: \<open>('sent')\<close> or \<open>('failed', error.message)\<close>.\<close>

datatype outcome = Sent | Failed js_error

text \<open>
  A status callback is code of the caller. The loop sees of it only whether a call
  returns or throws: each field is \<open>None\<close> when the call with that status returns and
  the message of the thrown error otherwise.
\<close>

datatype callback = Callback (throws_on_sent: "string option") (throws_on_failed: "string option")

text \<open>
  The fields \<open>type\<close> with \<open>event_id\<close> or \<open>task_id\<close> that the notification routes
  add to an entry.
\<close>

datatype entry_kind = Adhoc | EventNote jsval | TaskNote jsval

text \<open>
  An entry of \<open>messageQueue\<close>. \<open>entry_id\<close> is the field \<open>id\<close>. The identifiers of
  \<open>uuidv4()\<close> are drawn from a counter: each call gives a value never given before.
  The field \<open>timestamp\<close> (the wall clock at the push) is read by nothing modelled here
  and is left out.
\<close>

record entry =
  entry_id :: nat
  number :: jsval
  message :: jsval
  kind :: entry_kind
  statusCallback :: "callback option"

datatype conn_status =
  Initializing | QrReady | AuthenticatedStatus | ReadyStatus | AuthFailed
  | DisconnectedStatus | Resetting

text \<open>
  Where an execution of the asynchronous function \<open>processMessageQueue\<close> is suspended:
  at \<open>await client.sendMessage(...)\<close> of line 50, holding its locals \<open>messageData\<close>
  and \<open>formattedNumber\<close>, or at the \<open>await\<close> of the two-second timer of line 59.
\<close>

datatype pc = AwaitSend entry string | AwaitDelay

text \<open>
  The lines \<open>processMessageQueue\<close> writes to the console: the count of line 42, the
  success of line 51 with the formatted number, the failure of line 62 with
  \<open>messageData.number\<close> and \<open>error.message\<close>, and the completion of line 72.
\<close>

datatype log_line = Processing nat | MessageSent string | SendFailed jsval js_error | Completed

text \<open>
  The effects of the queue code on its surroundings, in the order they happen: a push
  onto the queue, a \<open>shift()\<close> off its head, a call of \<open>client.sendMessage\<close> with chat
  id and body, a line on the console, a call of the status callback of an entry, and
  \<open>setTimeout\<close> with its delay in milliseconds.
\<close>

datatype action =
    Push entry
  | Shift entry
  | SendMessage string jsval
  | Console log_line
  | Report entry outcome
  | Timeout nat

text \<open>
  The globals of the module, the suspended executions of \<open>processMessageQueue\<close>
  (JavaScript runs each piece of code between two \<open>await\<close>s to its end, so that other
  handlers run only while an execution is suspended), and the effects so far.
\<close>

record state =
  qrCodeData :: "string option"
  isClientReady :: bool
  connectionStatus :: conn_status
  messageQueue :: "entry list"
  isProcessingQueue :: bool
  drains :: "pc list"
  trace :: "action list"
  uuid_next :: nat

definition initial :: state where
  "initial = \<lparr> qrCodeData = None, isClientReady = False, connectionStatus = Initializing,
               messageQueue = [], isProcessingQueue = False, drains = [], trace = [],
               uuid_next = 0 \<rparr>"

definition emit :: "action list \<Rightarrow> state \<Rightarrow> state" where
  "emit as s = s\<lparr> trace := trace s @ as \<rparr>"

subsection \<open>processMessageQueue (server.js lines 36 to 73)\<close>

text \<open>
  Line 47 inside the \<open>try\<close>: \<open>formatPhoneNumber(messageData.number)\<close> throws a
  \<open>TypeError\<close> on a value without the method \<open>replace\<close>.
\<close>

definition try_formatPhoneNumber :: "jsval \<Rightarrow> js_error + string" where
  "try_formatPhoneNumber v = (case v of Str phone \<Rightarrow> Inr (formatPhoneNumber phone) | _ \<Rightarrow> Inl TypeError)"

text \<open>
  The catch block, lines 61 to 68: the failure is logged and reported to the callback
  of the entry when it has one. The second component is the error that leaves the
  block when the callback throws.
\<close>

definition catch_block :: "entry \<Rightarrow> js_error \<Rightarrow> state \<Rightarrow> state \<times> string option" where
  "catch_block messageData err s =
     (let s1 = emit [Console (SendFailed (number messageData) err)] s in
      case statusCallback messageData of
        None \<Rightarrow> (s1, None)
      | Some cb \<Rightarrow> (emit [Report messageData (Failed err)] s1, throws_on_failed cb))"

text \<open>
  How a run of the loop from its head ends: suspended at an \<open>await\<close>, left through the
  loop condition, or left by an error that nothing catches.
\<close>

datatype loop_exit = Suspended pc | Returned | Thrown string

lemma catch_block_queue [simp]:
  "messageQueue (fst (catch_block m e s)) = messageQueue s"
  by (simp add: catch_block_def emit_def Let_def split: option.split)

text \<open>
  The \<open>while\<close> loop of lines 44 to 69, from its condition to the next \<open>await\<close>. An
  entry whose number is not a string fails before any \<open>await\<close>, and the loop goes on
  to the next entry in the same run.
\<close>

function while_loop :: "state \<Rightarrow> state \<times> loop_exit" where
  "while_loop s =
     (if messageQueue s \<noteq> [] \<and> isClientReady s then
        (let messageData = hd (messageQueue s);
             s1 = emit [Shift messageData] (s\<lparr> messageQueue := tl (messageQueue s) \<rparr>)
         in case try_formatPhoneNumber (number messageData) of
              Inr formattedNumber \<Rightarrow>
                (emit [SendMessage (formattedNumber @ ''@c.us'') (message messageData)] s1,
                 Suspended (AwaitSend messageData formattedNumber))
            | Inl err \<Rightarrow>
                (case catch_block messageData err s1 of
                   (s2, Some e) \<Rightarrow> (s2, Thrown e)
                 | (s2, None) \<Rightarrow> while_loop s2))
      else (s, Returned))"
  by pat_completeness auto
termination
proof (relation "measure (\<lambda>s. length (messageQueue s))")
  show "wf (measure (\<lambda>s. length (messageQueue s)))" by simp
next
  fix s :: state and messageData s1 err s2 r
  assume q: "messageQueue s \<noteq> [] \<and> isClientReady s"
    and s1: "s1 = emit [Shift messageData] (s\<lparr> messageQueue := tl (messageQueue s) \<rparr>)"
    and p: "(s2, r) = catch_block messageData err s1"
  have "messageQueue s2 = messageQueue (fst (catch_block messageData err s1))"
    using p by (metis fst_conv)
  then have "messageQueue s2 = tl (messageQueue s)"
    by (simp add: s1 emit_def)
  then show "(s2, s) \<in> measure (\<lambda>s. length (messageQueue s))"
    using q by (cases "messageQueue s") simp_all
qed

declare while_loop.simps [simp del]

text \<open>
  Lines 51 to 59: the send has resolved. The success is logged and reported to the
  callback of the entry when it has one; then the loop waits for the timer. A callback
  that throws here is caught by the catch block of the same iteration.
\<close>

definition after_send_resolved :: "entry \<Rightarrow> string \<Rightarrow> state \<Rightarrow> state \<times> loop_exit" where
  "after_send_resolved messageData formattedNumber s =
     (let s0 = emit [Console (MessageSent formattedNumber)] s in
      case statusCallback messageData of
        None \<Rightarrow> (emit [Timeout 2000] s0, Suspended AwaitDelay)
      | Some cb \<Rightarrow>
          (let s1 = emit [Report messageData Sent] s0 in
           case throws_on_sent cb of
             None \<Rightarrow> (emit [Timeout 2000] s1, Suspended AwaitDelay)
           | Some e \<Rightarrow>
               (case catch_block messageData (Raised e) s1 of
                  (s2, Some e') \<Rightarrow> (s2, Thrown e')
                | (s2, None) \<Rightarrow> while_loop s2)))"

text \<open>The send has rejected: the catch block, then the loop condition again.\<close>

definition after_send_rejected :: "entry \<Rightarrow> string \<Rightarrow> state \<Rightarrow> state \<times> loop_exit" where
  "after_send_rejected messageData err s =
     (case catch_block messageData (Rejected err) s of
        (s2, Some e') \<Rightarrow> (s2, Thrown e')
      | (s2, None) \<Rightarrow> while_loop s2)"

text \<open>Lines 71 and 72, after the loop: the flag is cleared and the completion logged.\<close>

definition after_loop :: "state \<Rightarrow> state" where
  "after_loop s = emit [Console Completed] (s\<lparr> isProcessingQueue := False \<rparr>)"

text \<open>
  Lines 36 to 43: the guard, the flag, the count on the console, and the first run of
  the loop. An execution that leaves the loop runs lines 71 and 72; one that ends in an
  uncaught error rejects the promise of the call and never reaches line 71.
\<close>

definition processMessageQueue :: "state \<Rightarrow> state" where
  "processMessageQueue s =
     (if isProcessingQueue s \<or> messageQueue s = [] \<or> \<not> isClientReady s then s
      else
        (case while_loop (emit [Console (Processing (length (messageQueue s)))]
                            (s\<lparr> isProcessingQueue := True \<rparr>)) of
           (s', Suspended p) \<Rightarrow> s'\<lparr> drains := drains s' @ [p] \<rparr>
         | (s', Returned) \<Rightarrow> after_loop s'
         | (s', Thrown e) \<Rightarrow> s'))"

text \<open>The suspended execution \<open>i\<close> has run on until it suspends again or ends.\<close>

definition remove_nth :: "nat \<Rightarrow> 'a list \<Rightarrow> 'a list" where
  "remove_nth i xs = take i xs @ drop (Suc i) xs"

definition resume :: "nat \<Rightarrow> state \<times> loop_exit \<Rightarrow> state" where
  "resume i r =
     (case r of
        (s', Suspended p) \<Rightarrow> s'\<lparr> drains := (drains s')[i := p] \<rparr>
      | (s', Returned) \<Rightarrow> after_loop (s'\<lparr> drains := remove_nth i (drains s') \<rparr>)
      | (s', Thrown e) \<Rightarrow> s'\<lparr> drains := remove_nth i (drains s') \<rparr>)"


subsection \<open>The routes that fill and clear the queue, and the scheduler\<close>

text \<open>
  \<open>messageQueue.push({id: uuidv4(), number, message, ...})\<close>, lines 262 to 268, 319 to
  327 and 378 to 386. No route attaches a status callback.
\<close>

definition push_entry :: "entry_kind \<Rightarrow> jsval \<Rightarrow> jsval \<Rightarrow> state \<Rightarrow> state" where
  "push_entry k n m s =
     (let e = \<lparr> entry_id = uuid_next s, number = n, message = m, kind = k,
                statusCallback = None \<rparr>
      in emit [Push e] (s\<lparr> messageQueue := messageQueue s @ [e], uuid_next := Suc (uuid_next s) \<rparr>))"

text \<open>
  The \<open>forEach\<close> of the bulk route, lines 252 to 276, over the pairs of \<open>msg.number\<close>
  and \<open>msg.message\<close>: an item with a falsy number or message is answered with an error
  and not queued.
\<close>

fun forEach_bulk :: "(jsval \<times> jsval) list \<Rightarrow> state \<Rightarrow> state" where
  "forEach_bulk [] s = s"
| "forEach_bulk ((n, m) # msgs) s =
     (if \<not> truthy n \<or> \<not> truthy m then forEach_bulk msgs s
      else forEach_bulk msgs (push_entry Adhoc n m s))"

text \<open>
  \<open>POST /api/send-bulk-messages\<close>, lines 232 to 287: status 400 on an empty list, 503
  while the client is not ready, else the items are queued and the drain is started.
  The reply of a route is not part of the state.
\<close>

definition send_bulk_messages :: "(jsval \<times> jsval) list \<Rightarrow> state \<Rightarrow> state" where
  "send_bulk_messages messages s =
     (if messages = [] then s
      else if \<not> isClientReady s then s
      else processMessageQueue (forEach_bulk messages s))"

text \<open>
  The \<open>forEach\<close> of the two notification routes, lines 318 to 336 and 377 to 395, over
  the array \<open>messages\<close> that the route has rendered before (one pair of
  \<open>staff.mobile_number\<close> and message text per member of staff): every item is queued.
\<close>

fun forEach_notify :: "entry_kind \<Rightarrow> (jsval \<times> jsval) list \<Rightarrow> state \<Rightarrow> state" where
  "forEach_notify k [] s = s"
| "forEach_notify k ((n, m) # msgs) s = forEach_notify k msgs (push_entry k n m s)"

text \<open>
  \<open>POST /api/send-event-messages\<close> and \<open>POST /api/send-task-messages\<close>, lines 290 to
  406, from the point where \<open>messages\<close> is rendered.
\<close>

definition send_notifications :: "entry_kind \<Rightarrow> (jsval \<times> jsval) list \<Rightarrow> state \<Rightarrow> state" where
  "send_notifications k messages s =
     (if messages = [] then s
      else if \<not> isClientReady s then s
      else processMessageQueue (forEach_notify k messages s))"

text \<open>\<open>POST /api/clear-queue\<close>, lines 409 to 417.\<close>

definition clear_queue :: "state \<Rightarrow> state" where
  "clear_queue s = s\<lparr> messageQueue := [] \<rparr>"

text \<open>The scheduler callback, lines 553 to 558.\<close>

definition cron_tick :: "state \<Rightarrow> state" where
  "cron_tick s =
     (if messageQueue s \<noteq> [] \<and> isClientReady s \<and> \<not> isProcessingQueue s
      then processMessageQueue s else s)"

subsection \<open>Everything that can happen to the state\<close>

text \<open>
  The events of the client (lines 107 to 157), the requests, the scheduler, and the
  three ways a suspended execution of \<open>processMessageQueue\<close> is woken: its send
  resolves, its send rejects with a message, its timer fires. An event for an
  execution that is not suspended there does nothing.
\<close>

datatype event =
    OnQr
  | OnQrImage string
  | OnReady
  | OnAuthenticated
  | OnAuthFailure
  | OnDisconnected
  | PostReset
  | PostSendBulk "(jsval \<times> jsval) list"
  | PostSendEvent jsval "(jsval \<times> jsval) list"
  | PostSendTask jsval "(jsval \<times> jsval) list"
  | PostClearQueue
  | CronTick
  | SendResolved nat
  | SendRejected nat string
  | DelayElapsed nat

fun step :: "event \<Rightarrow> state \<Rightarrow> state" where
  "step OnQr s = s\<lparr> connectionStatus := QrReady \<rparr>"
| "step (OnQrImage url) s = s\<lparr> qrCodeData := Some url \<rparr>"
| "step OnReady s =
     s\<lparr> isClientReady := True, connectionStatus := ReadyStatus, qrCodeData := None \<rparr>"
| "step OnAuthenticated s = s\<lparr> connectionStatus := AuthenticatedStatus \<rparr>"
| "step OnAuthFailure s = s\<lparr> connectionStatus := AuthFailed \<rparr>"
| "step OnDisconnected s =
     s\<lparr> isClientReady := False, connectionStatus := DisconnectedStatus \<rparr>"
| "step PostReset s =
     s\<lparr> qrCodeData := None, isClientReady := False, connectionStatus := Resetting \<rparr>"
| "step (PostSendBulk messages) s = send_bulk_messages messages s"
| "step (PostSendEvent event_id messages) s = send_notifications (EventNote event_id) messages s"
| "step (PostSendTask task_id messages) s = send_notifications (TaskNote task_id) messages s"
| "step PostClearQueue s = clear_queue s"
| "step CronTick s = cron_tick s"
| "step (SendResolved i) s =
     (if i < length (drains s) then
        (case drains s ! i of
           AwaitSend messageData formattedNumber \<Rightarrow>
             resume i (after_send_resolved messageData formattedNumber s)
         | AwaitDelay \<Rightarrow> s)
      else s)"
| "step (SendRejected i err) s =
     (if i < length (drains s) then
        (case drains s ! i of
           AwaitSend messageData formattedNumber \<Rightarrow>
             resume i (after_send_rejected messageData err s)
         | AwaitDelay \<Rightarrow> s)
      else s)"
| "step (DelayElapsed i) s =
     (if i < length (drains s) then
        (case drains s ! i of
           AwaitDelay \<Rightarrow> resume i (while_loop s)
         | AwaitSend messageData formattedNumber \<Rightarrow> s)
      else s)"

text \<open>The state after a list of events, the oldest first.\<close>

definition run :: "event list \<Rightarrow> state \<Rightarrow> state" where
  "run evs s = foldl (\<lambda>s e. step e s) s evs"

subsection \<open>Reading a trace\<close>

text \<open>
  The entries pushed, the entries shifted, the sends and the timers of a trace, each in
  the order of the trace.
\<close>

fun pushed :: "action list \<Rightarrow> entry list" where
  "pushed [] = []"
| "pushed (Push e # as) = e # pushed as"
| "pushed (a # as) = pushed as"

fun shifted :: "action list \<Rightarrow> entry list" where
  "shifted [] = []"
| "shifted (Shift e # as) = e # shifted as"
| "shifted (a # as) = shifted as"

fun sends :: "action list \<Rightarrow> (string \<times> jsval) list" where
  "sends [] = []"
| "sends (SendMessage c b # as) = (c, b) # sends as"
| "sends (a # as) = sends as"

fun timeouts :: "action list \<Rightarrow> nat list" where
  "timeouts [] = []"
| "timeouts (Timeout ms # as) = ms # timeouts as"
| "timeouts (a # as) = timeouts as"

text \<open>What a step has added to the trace.\<close>

definition added :: "state \<Rightarrow> state \<Rightarrow> action list" where
  "added s s' = drop (length (trace s)) (trace s')"

subsection \<open>The loop, one iteration at a time\<close>

text \<open>
  The error that leaves the catch block for an entry (the one its callback throws on
  \<open>failed\<close>), what the catch block writes to the trace, and the chat id and body of the
  send of an entry (none when its number is not a string).
\<close>

definition catch_throws :: "entry \<Rightarrow> string option" where
  "catch_throws m = (case statusCallback m of None \<Rightarrow> None | Some cb \<Rightarrow> throws_on_failed cb)"

definition failed_report :: "entry \<Rightarrow> js_error \<Rightarrow> action list" where
  "failed_report m err =
     Console (SendFailed (number m) err) #
     (case statusCallback m of None \<Rightarrow> [] | Some cb \<Rightarrow> [Report m (Failed err)])"

definition chat_of :: "entry \<Rightarrow> (string \<times> jsval) option" where
  "chat_of m = (case number m of Str phone \<Rightarrow> Some (formatPhoneNumber phone @ ''@c.us'', message m) | _ \<Rightarrow> None)"

lemma emit_simps [simp]:
  "trace (emit as s) = trace s @ as"
  "messageQueue (emit as s) = messageQueue s"
  "isClientReady (emit as s) = isClientReady s"
  "isProcessingQueue (emit as s) = isProcessingQueue s"
  "drains (emit as s) = drains s"
  "uuid_next (emit as s) = uuid_next s"
  "qrCodeData (emit as s) = qrCodeData s"
  "connectionStatus (emit as s) = connectionStatus s"
  by (simp_all add: emit_def)

lemma after_loop_simps [simp]:
  "trace (after_loop s) = trace s @ [Console Completed]"
  "messageQueue (after_loop s) = messageQueue s"
  "isClientReady (after_loop s) = isClientReady s"
  "isProcessingQueue (after_loop s) = False"
  "drains (after_loop s) = drains s"
  "uuid_next (after_loop s) = uuid_next s"
  "qrCodeData (after_loop s) = qrCodeData s"
  "connectionStatus (after_loop s) = connectionStatus s"
  by (simp_all add: after_loop_def)

lemma emit_Nil [simp]: "emit [] s = s"
  by (simp add: emit_def)

lemma emit_emit [simp]: "emit bs (emit as s) = emit (as @ bs) s"
  by (simp add: emit_def)

lemma catch_block_eq: "catch_block m err s = (emit (failed_report m err) s, catch_throws m)"
  by (simp add: catch_block_def failed_report_def catch_throws_def Let_def split: option.split)

lemma try_format_Str [simp]: "try_formatPhoneNumber (Str p) = Inr (formatPhoneNumber p)"
  by (simp add: try_formatPhoneNumber_def)

lemma try_format_other: "\<forall>p. v \<noteq> Str p \<Longrightarrow> try_formatPhoneNumber v = Inl TypeError"
  by (cases v) (simp_all add: try_formatPhoneNumber_def)

lemma while_loop_exit:
  "messageQueue s = [] \<or> \<not> isClientReady s \<Longrightarrow> while_loop s = (s, Returned)"
  by (subst while_loop.simps) auto

lemma while_loop_send:
  assumes "messageQueue s = m # rest" "isClientReady s" "number m = Str phone"
  shows "while_loop s =
    (emit [Shift m, SendMessage (formatPhoneNumber phone @ ''@c.us'') (message m)]
       (s\<lparr> messageQueue := rest \<rparr>), Suspended (AwaitSend m (formatPhoneNumber phone)))"
  using assms by (subst while_loop.simps) simp

lemma while_loop_throw:
  assumes "messageQueue s = m # rest" "isClientReady s" "\<forall>p. number m \<noteq> Str p"
    "catch_throws m = Some e"
  shows "while_loop s =
    (emit (Shift m # failed_report m TypeError) (s\<lparr> messageQueue := rest \<rparr>), Thrown e)"
  using assms by (subst while_loop.simps) (simp add: try_format_other catch_block_eq)

lemma while_loop_skip:
  assumes "messageQueue s = m # rest" "isClientReady s" "\<forall>p. number m \<noteq> Str p"
    "catch_throws m = None"
  shows "while_loop s =
    while_loop (emit (Shift m # failed_report m TypeError) (s\<lparr> messageQueue := rest \<rparr>))"
  using assms by (subst while_loop.simps) (simp add: try_format_other catch_block_eq)

lemma while_loop_cases [case_names exit send throw skip]:
  assumes exit: "\<And>s. messageQueue s = [] \<or> \<not> isClientReady s \<Longrightarrow> P s (s, Returned)"
    and send: "\<And>s m rest phone. messageQueue s = m # rest \<Longrightarrow> isClientReady s \<Longrightarrow>
        number m = Str phone \<Longrightarrow>
        P s (emit [Shift m, SendMessage (formatPhoneNumber phone @ ''@c.us'') (message m)]
              (s\<lparr> messageQueue := rest \<rparr>), Suspended (AwaitSend m (formatPhoneNumber phone)))"
    and throw: "\<And>s m rest e. messageQueue s = m # rest \<Longrightarrow> isClientReady s \<Longrightarrow>
        \<forall>p. number m \<noteq> Str p \<Longrightarrow> catch_throws m = Some e \<Longrightarrow>
        P s (emit (Shift m # failed_report m TypeError) (s\<lparr> messageQueue := rest \<rparr>), Thrown e)"
    and skip: "\<And>s m rest s2. messageQueue s = m # rest \<Longrightarrow> isClientReady s \<Longrightarrow>
        \<forall>p. number m \<noteq> Str p \<Longrightarrow> catch_throws m = None \<Longrightarrow>
        s2 = emit (Shift m # failed_report m TypeError) (s\<lparr> messageQueue := rest \<rparr>) \<Longrightarrow>
        P s2 (while_loop s2) \<Longrightarrow> P s (while_loop s2)"
  shows "P s (while_loop s)"
proof (induction "length (messageQueue s)" arbitrary: s rule: less_induct)
  case less
  show ?case
  proof (cases "messageQueue s = [] \<or> \<not> isClientReady s")
    case True
    then show ?thesis using exit [of s] by (simp add: while_loop_exit)
  next
    case False
    then obtain m rest where q: "messageQueue s = m # rest" and r: "isClientReady s"
      by (cases "messageQueue s") auto
    show ?thesis
    proof (cases "\<exists>p. number m = Str p")
      case True
      then obtain phone where "number m = Str phone" by blast
      then show ?thesis using send [OF q r] by (simp add: while_loop_send [OF q r])
    next
      case ns: False
      then have ns': "\<forall>p. number m \<noteq> Str p" by simp
      show ?thesis
      proof (cases "catch_throws m")
        case None
        let ?s2 = "emit (Shift m # failed_report m TypeError) (s\<lparr> messageQueue := rest \<rparr>)"
        have "length (messageQueue ?s2) < length (messageQueue s)" using q by simp
        then have "P ?s2 (while_loop ?s2)" by (rule less)
        then have "P s (while_loop ?s2)" using skip [OF q r ns' None refl] by simp
        then show ?thesis by (simp add: while_loop_skip [OF q r ns' None])
      next
        case (Some e)
        then show ?thesis using throw [OF q r ns' Some] by (simp add: while_loop_throw [OF q r ns' Some])
      qed
    qed
  qed
qed


lemma pushed_append [simp]: "pushed (as @ bs) = pushed as @ pushed bs"
  by (induction as rule: pushed.induct) simp_all
lemma shifted_append [simp]: "shifted (as @ bs) = shifted as @ shifted bs"
  by (induction as rule: shifted.induct) simp_all
lemma sends_append [simp]: "sends (as @ bs) = sends as @ sends bs"
  by (induction as rule: sends.induct) simp_all
lemma timeouts_append [simp]: "timeouts (as @ bs) = timeouts as @ timeouts bs"
  by (induction as rule: timeouts.induct) simp_all

lemma failed_report_simps [simp]:
  "pushed (failed_report m e) = []" "shifted (failed_report m e) = []"
  "sends (failed_report m e) = []" "timeouts (failed_report m e) = []"
  by (simp_all add: failed_report_def split: option.split)

lemma map_filter_append: "List.map_filter f (xs @ ys) = List.map_filter f xs @ List.map_filter f ys"
  by (simp add: List.map_filter_def)

lemma chat_of_Str: "number m = Str phone \<Longrightarrow> chat_of m = Some (formatPhoneNumber phone @ ''@c.us'', message m)"
  by (simp add: chat_of_def)

lemma chat_of_other: "\<forall>p. number m \<noteq> Str p \<Longrightarrow> chat_of m = None"
  by (cases "number m") (simp_all add: chat_of_def)

definition same_control :: "state \<Rightarrow> state \<Rightarrow> bool" where
  "same_control s s' \<longleftrightarrow>
     drains s' = drains s \<and> isProcessingQueue s' = isProcessingQueue s \<and>
     isClientReady s' = isClientReady s \<and> uuid_next s' = uuid_next s \<and>
     qrCodeData s' = qrCodeData s \<and> connectionStatus s' = connectionStatus s"

definition drained :: "state \<Rightarrow> state \<Rightarrow> action list \<Rightarrow> bool" where
  "drained s s' as \<longleftrightarrow>
     trace s' = trace s @ as \<and> pushed as = [] \<and>
     shifted as @ messageQueue s' = messageQueue s \<and>
     sends as = List.map_filter chat_of (shifted as)"

lemma while_loop_control: "same_control s (fst (while_loop s))"
  by (rule while_loop_cases [where P = "\<lambda>s r. same_control s (fst r)"])
    (simp_all add: same_control_def)

lemma while_loop_drained: "\<exists>as. drained s (fst (while_loop s)) as \<and> timeouts as = []"
proof (rule while_loop_cases [where P = "\<lambda>s r. \<exists>as. drained s (fst r) as \<and> timeouts as = []"])
  fix s :: state
  show "\<exists>as. drained s (fst (s, Returned)) as \<and> timeouts as = []"
    by (rule exI [of _ "[]"]) (simp add: drained_def List.map_filter_def)
next
  fix s :: state and m rest phone
  assume "messageQueue s = m # rest" "number m = Str phone"
  then show "\<exists>as. drained s (fst (emit [Shift m, SendMessage (formatPhoneNumber phone @ ''@c.us'') (message m)]
              (s\<lparr> messageQueue := rest \<rparr>), Suspended (AwaitSend m (formatPhoneNumber phone)))) as \<and> timeouts as = []"
    by (intro exI [of _ "[Shift m, SendMessage (formatPhoneNumber phone @ ''@c.us'') (message m)]"])
      (simp add: drained_def List.map_filter_def chat_of_Str)
next
  fix s :: state and m rest e
  assume "messageQueue s = m # rest" "\<forall>p. number m \<noteq> Str p"
  then show "\<exists>as. drained s (fst (emit (Shift m # failed_report m TypeError) (s\<lparr> messageQueue := rest \<rparr>), Thrown e)) as \<and> timeouts as = []"
    by (intro exI [of _ "Shift m # failed_report m TypeError"])
      (simp add: drained_def List.map_filter_def chat_of_other)
next
  fix s :: state and m rest s2
  assume q: "messageQueue s = m # rest" and ns: "\<forall>p. number m \<noteq> Str p"
    and s2: "s2 = emit (Shift m # failed_report m TypeError) (s\<lparr> messageQueue := rest \<rparr>)"
    and ih: "\<exists>as. drained s2 (fst (while_loop s2)) as \<and> timeouts as = []"
  from ih obtain as where as: "drained s2 (fst (while_loop s2)) as" "timeouts as = []" by blast
  have "drained s (fst (while_loop s2)) ((Shift m # failed_report m TypeError) @ as)"
    using as(1) q ns unfolding drained_def s2
    by (simp add: List.map_filter_def chat_of_other)
  then show "\<exists>as. drained s (fst (while_loop s2)) as \<and> timeouts as = []"
    using as(2) by (intro exI [of _ "(Shift m # failed_report m TypeError) @ as"]) simp
qed

text \<open>How the loop can end.\<close>

lemma while_loop_end:
  "(case snd (while_loop s) of
      Returned \<Rightarrow> messageQueue (fst (while_loop s)) = [] \<or> \<not> isClientReady s
    | Suspended p \<Rightarrow> isClientReady s \<and>
        (\<exists>m \<in> set (messageQueue s). \<exists>phone. number m = Str phone \<and>
           p = AwaitSend m (formatPhoneNumber phone))
    | Thrown e \<Rightarrow> isClientReady s \<and> (\<exists>m \<in> set (messageQueue s). catch_throws m = Some e))"
proof (rule while_loop_cases [where P = "\<lambda>s r. (case snd r of
      Returned \<Rightarrow> messageQueue (fst r) = [] \<or> \<not> isClientReady s
    | Suspended p \<Rightarrow> isClientReady s \<and>
        (\<exists>m \<in> set (messageQueue s). \<exists>phone. number m = Str phone \<and>
           p = AwaitSend m (formatPhoneNumber phone))
    | Thrown e \<Rightarrow> isClientReady s \<and> (\<exists>m \<in> set (messageQueue s). catch_throws m = Some e))"])
  fix s :: state and m rest s2
  assume q: "messageQueue s = m # rest" and r: "isClientReady s"
    and s2: "s2 = emit (Shift m # failed_report m TypeError) (s\<lparr> messageQueue := rest \<rparr>)"
    and ih: "(case snd (while_loop s2) of
      Returned \<Rightarrow> messageQueue (fst (while_loop s2)) = [] \<or> \<not> isClientReady s2
    | Suspended p \<Rightarrow> isClientReady s2 \<and>
        (\<exists>m \<in> set (messageQueue s2). \<exists>phone. number m = Str phone \<and>
           p = AwaitSend m (formatPhoneNumber phone))
    | Thrown e \<Rightarrow> isClientReady s2 \<and> (\<exists>m \<in> set (messageQueue s2). catch_throws m = Some e))"
  have "isClientReady s2 = isClientReady s" "messageQueue s2 = rest" by (simp_all add: s2)
  then show "(case snd (while_loop s2) of
      Returned \<Rightarrow> messageQueue (fst (while_loop s2)) = [] \<or> \<not> isClientReady s
    | Suspended p \<Rightarrow> isClientReady s \<and>
        (\<exists>m \<in> set (messageQueue s). \<exists>phone. number m = Str phone \<and>
           p = AwaitSend m (formatPhoneNumber phone))
    | Thrown e \<Rightarrow> isClientReady s \<and> (\<exists>m \<in> set (messageQueue s). catch_throws m = Some e))"
    using ih q by (auto split: loop_exit.splits)
qed auto


lemma same_control_refl [simp]: "same_control s s"
  by (simp add: same_control_def)

lemma same_control_emit [simp]: "same_control s (emit as s)"
  by (simp add: same_control_def)

lemma drained_emit:
  "pushed bs = [] \<Longrightarrow> shifted bs = [] \<Longrightarrow> sends bs = [] \<Longrightarrow> drained (emit bs s) s' as \<Longrightarrow>
   drained s s' (bs @ as)"
  by (simp add: drained_def)

lemma after_send_rejected_eq:
  "after_send_rejected m err s =
     (case catch_throws m of
        Some e \<Rightarrow> (emit (failed_report m (Rejected err)) s, Thrown e)
      | None \<Rightarrow> while_loop (emit (failed_report m (Rejected err)) s))"
  by (simp add: after_send_rejected_def catch_block_eq split: option.split)

lemma after_send_resolved_eq:
  "after_send_resolved m f s =
     (case statusCallback m of
        None \<Rightarrow> (emit [Console (MessageSent f), Timeout 2000] s, Suspended AwaitDelay)
      | Some cb \<Rightarrow>
          (case throws_on_sent cb of
             None \<Rightarrow> (emit [Console (MessageSent f), Report m Sent, Timeout 2000] s,
                      Suspended AwaitDelay)
           | Some e \<Rightarrow>
               (case catch_throws m of
                  Some e' \<Rightarrow>
                    (emit (Console (MessageSent f) # Report m Sent # failed_report m (Raised e)) s,
                     Thrown e')
                | None \<Rightarrow>
                    while_loop
                      (emit (Console (MessageSent f) # Report m Sent # failed_report m (Raised e)) s))))"
  by (simp add: after_send_resolved_def catch_block_eq Let_def split: option.split)

lemma after_send_rejected_control: "same_control s (fst (after_send_rejected m err s))"
  using while_loop_control [of "emit (failed_report m (Rejected err)) s"]
  by (auto simp: after_send_rejected_eq same_control_def split: option.split)

lemma after_send_resolved_control: "same_control s (fst (after_send_resolved m f s))"
proof -
  have "same_control s (fst (while_loop (emit as s)))" for as
    using while_loop_control [of "emit as s"] by (simp add: same_control_def)
  then show ?thesis
    by (simp add: after_send_resolved_eq split: option.split)
qed

lemma drained_base: "pushed bs = [] \<Longrightarrow> shifted bs = [] \<Longrightarrow> sends bs = [] \<Longrightarrow> drained s (emit bs s) bs"
  by (simp add: drained_def List.map_filter_def)

lemma while_loop_emit_drained:
  assumes "pushed bs = []" "shifted bs = []" "sends bs = []"
  shows "\<exists>as. drained s (fst (while_loop (emit bs s))) as"
proof -
  obtain as where "drained (emit bs s) (fst (while_loop (emit bs s))) as"
    using while_loop_drained by blast
  then have "drained s (fst (while_loop (emit bs s))) (bs @ as)"
    using assms by (rule drained_emit [rotated 3])
  then show ?thesis ..
qed

lemma after_send_rejected_drained: "\<exists>as. drained s (fst (after_send_rejected m err s)) as"
proof (cases "catch_throws m")
  case None
  then show ?thesis
    using while_loop_emit_drained [of "failed_report m (Rejected err)" s]
    by (simp add: after_send_rejected_eq)
next
  case (Some e)
  then show ?thesis
    using drained_base [of "failed_report m (Rejected err)" s]
    by (auto simp: after_send_rejected_eq)
qed

lemma after_send_resolved_drained: "\<exists>as. drained s (fst (after_send_resolved m f s)) as"
proof (cases "statusCallback m")
  case None
  then show ?thesis
    using drained_base [of "[Console (MessageSent f), Timeout 2000]" s]
    by (auto simp: after_send_resolved_eq)
next
  case (Some cb)
  show ?thesis
  proof (cases "throws_on_sent cb")
    case None
    then show ?thesis
      using Some drained_base [of "[Console (MessageSent f), Report m Sent, Timeout 2000]" s]
      by (auto simp: after_send_resolved_eq)
  next
    case e: (Some e)
    show ?thesis
    proof (cases "catch_throws m")
      case None
      then show ?thesis
        using Some e
          while_loop_emit_drained
            [of "Console (MessageSent f) # Report m Sent # failed_report m (Raised e)" s]
        by (simp add: after_send_resolved_eq)
    next
      case (Some e')
      then show ?thesis
        using \<open>statusCallback m = Some cb\<close> e
          drained_base [of "Console (MessageSent f) # Report m Sent # failed_report m (Raised e)" s]
        by (auto simp: after_send_resolved_eq)
    qed
  qed
qed

lemma added_append [simp]: "trace s' = trace s @ as \<Longrightarrow> added s s' = as"
  by (simp add: added_def)

subsection \<open>The scenario of the specification\<close>

text \<open>
  The three messages of the scenario of the specification, the entries the bulk route
  makes of them, and the state after the client became ready and the route queued
  them: the first send is in flight.
\<close>

definition scenario :: "(jsval \<times> jsval) list" where
  "scenario = [(Str ''9876543210'', Str ''one''), (Str ''919876543211'', Str ''two''),
               (Str ''12345'', Str ''three'')]"

definition item :: "nat \<Rightarrow> string \<Rightarrow> string \<Rightarrow> entry" where
  "item i n m = \<lparr> entry_id = i, number = Str n, message = Str m, kind = Adhoc,
                 statusCallback = None \<rparr>"

lemma format_scenario:
  "formatPhoneNumber ''9876543210'' = ''919876543210''"
  "formatPhoneNumber ''919876543211'' = ''919876543211''"
  "formatPhoneNumber ''12345'' = ''12345''"
  by (simp_all add: formatPhoneNumber_def replace_non_digits_def is_digit_def startsWith_def
      slice_from_def)

lemma item_simps [simp]:
  "number (item i n m) = Str n" "message (item i n m) = Str m"
  "statusCallback (item i n m) = None" "entry_id (item i n m) = i"
  by (simp_all add: item_def)

lemma catch_throws_item [simp]: "catch_throws (item i n m) = None"
  by (simp add: catch_throws_def)

lemma failed_report_item [simp]:
  "failed_report (item i n m) e = [Console (SendFailed (Str n) e)]"
  by (simp add: failed_report_def)

definition queued :: state where
  "queued = \<lparr> qrCodeData = None, isClientReady = True, connectionStatus = ReadyStatus,
      messageQueue = [item 1 ''919876543211'' ''two'', item 2 ''12345'' ''three''],
      isProcessingQueue = True,
      drains = [AwaitSend (item 0 ''9876543210'' ''one'') ''919876543210''],
      trace = [Push (item 0 ''9876543210'' ''one''), Push (item 1 ''919876543211'' ''two''),
               Push (item 2 ''12345'' ''three''), Console (Processing 3),
               Shift (item 0 ''9876543210'' ''one''),
               SendMessage ''919876543210@c.us'' (Str ''one'')],
      uuid_next = 3 \<rparr>"

lemma run_scenario: "run [OnReady, PostSendBulk scenario] initial = queued"
  by (simp add: run_def initial_def scenario_def send_bulk_messages_def push_entry_def Let_def
      processMessageQueue_def emit_def queued_def item_def format_scenario
      while_loop_send [where phone = "''9876543210''"])

lemma queued_rejected:
  "step (SendRejected 0 err) queued =
     queued\<lparr> messageQueue := [item 2 ''12345'' ''three''],
             drains := [AwaitSend (item 1 ''919876543211'' ''two'') ''919876543211''],
             trace := trace queued @
                [Console (SendFailed (Str ''9876543210'') (Rejected err)),
                 Shift (item 1 ''919876543211'' ''two''),
                 SendMessage ''919876543211@c.us'' (Str ''two'')] \<rparr>"
  by (simp add: queued_def after_send_rejected_eq resume_def emit_def format_scenario
      while_loop_send [where phone = "''919876543211''"])

lemma queued_resolved:
  "step (SendResolved 0) queued =
     queued\<lparr> drains := [AwaitDelay],
             trace := trace queued @ [Console (MessageSent ''919876543210''), Timeout 2000] \<rparr>"
  by (simp add: queued_def after_send_resolved_eq resume_def emit_def)

lemma delay_queued:
  "step (DelayElapsed 0) (step (SendResolved 0) queued) =
     queued\<lparr> messageQueue := [item 2 ''12345'' ''three''],
             drains := [AwaitSend (item 1 ''919876543211'' ''two'') ''919876543211''],
             trace := trace queued @
                [Console (MessageSent ''919876543210''), Timeout 2000,
                 Shift (item 1 ''919876543211'' ''two''),
                 SendMessage ''919876543211@c.us'' (Str ''two'')] \<rparr>"
  unfolding queued_resolved
  by (simp add: queued_def resume_def emit_def format_scenario
      while_loop_send [where phone = "''919876543211''"])

subsection \<open>At most one drain\<close>

text \<open>
  At most one execution of \<open>processMessageQueue\<close> is suspended, and the flag is set
  while one is.
\<close>

definition single_drain :: "state \<Rightarrow> bool" where
  "single_drain s \<longleftrightarrow> length (drains s) \<le> 1 \<and> (drains s = [] \<or> isProcessingQueue s)"

lemma run_Nil [simp]: "run [] s = s"
  by (simp add: run_def)

lemma run_snoc [simp]: "run (evs @ [e]) s = step e (run evs s)"
  by (simp add: run_def)

lemma push_entry_simps [simp]:
  "drains (push_entry k n m s) = drains s"
  "isProcessingQueue (push_entry k n m s) = isProcessingQueue s"
  "isClientReady (push_entry k n m s) = isClientReady s"
  by (simp_all add: push_entry_def Let_def)

lemma forEach_bulk_control [simp]:
  "drains (forEach_bulk msgs s) = drains s"
  "isProcessingQueue (forEach_bulk msgs s) = isProcessingQueue s"
  "isClientReady (forEach_bulk msgs s) = isClientReady s"
  by (induction msgs s rule: forEach_bulk.induct) simp_all

lemma forEach_notify_control [simp]:
  "drains (forEach_notify k msgs s) = drains s"
  "isProcessingQueue (forEach_notify k msgs s) = isProcessingQueue s"
  "isClientReady (forEach_notify k msgs s) = isClientReady s"
  by (induction k msgs s rule: forEach_notify.induct) simp_all

lemma processMessageQueue_guard:
  "isProcessingQueue s \<or> messageQueue s = [] \<or> \<not> isClientReady s \<Longrightarrow> processMessageQueue s = s"
  by (simp add: processMessageQueue_def)

lemma processMessageQueue_single:
  assumes "single_drain s"
  shows "single_drain (processMessageQueue s)"
proof (cases "isProcessingQueue s \<or> messageQueue s = [] \<or> \<not> isClientReady s")
  case True
  then show ?thesis using assms by (simp add: processMessageQueue_guard)
next
  case False
  then have d: "drains s = []" using assms by (auto simp: single_drain_def)
  let ?s1 = "emit [Console (Processing (length (messageQueue s)))] (s\<lparr> isProcessingQueue := True \<rparr>)"
  obtain s' r where w: "while_loop ?s1 = (s', r)" by (cases "while_loop ?s1")
  have "same_control ?s1 s'" using while_loop_control [of ?s1] w by simp
  then have "drains s' = []" "isProcessingQueue s'" using d by (simp_all add: same_control_def)
  then show ?thesis
    using False w by (cases r) (simp_all add: processMessageQueue_def single_drain_def)
qed

lemma resume_single:
  assumes "single_drain s" "same_control s s'" "i < length (drains s)"
  shows "single_drain (resume i (s', r))"
proof -
  have "length (drains s') \<le> 1" "isProcessingQueue s'" "i = 0"
    using assms by (auto simp: single_drain_def same_control_def)
  then show ?thesis
    by (cases r) (auto simp: resume_def single_drain_def remove_nth_def)
qed

lemma step_single:
  assumes "single_drain s"
  shows "single_drain (step ev s)"
proof (cases ev)
  case (PostSendBulk msgs)
  have "single_drain (forEach_bulk msgs s)" using assms by (simp add: single_drain_def)
  then show ?thesis
    using assms PostSendBulk by (simp add: send_bulk_messages_def processMessageQueue_single)
next
  case (PostSendEvent x msgs)
  have "single_drain (forEach_notify (EventNote x) msgs s)" using assms by (simp add: single_drain_def)
  then show ?thesis
    using assms PostSendEvent by (simp add: send_notifications_def processMessageQueue_single)
next
  case (PostSendTask x msgs)
  have "single_drain (forEach_notify (TaskNote x) msgs s)" using assms by (simp add: single_drain_def)
  then show ?thesis
    using assms PostSendTask by (simp add: send_notifications_def processMessageQueue_single)
next
  case CronTick
  then show ?thesis using assms by (simp add: cron_tick_def processMessageQueue_single)
next
  case (SendResolved i)
  show ?thesis
  proof (cases "i < length (drains s)")
    case True
    show ?thesis
    proof (cases "drains s ! i")
      case (AwaitSend m f)
      have "single_drain (resume i (fst (after_send_resolved m f s), snd (after_send_resolved m f s)))"
        using assms after_send_resolved_control True by (rule resume_single)
      then show ?thesis using SendResolved True AwaitSend by simp
    next
      case AwaitDelay
      then show ?thesis using SendResolved True assms by simp
    qed
  next
    case False
    then show ?thesis using SendResolved assms by simp
  qed
next
  case (SendRejected i err)
  show ?thesis
  proof (cases "i < length (drains s)")
    case True
    show ?thesis
    proof (cases "drains s ! i")
      case (AwaitSend m f)
      have "single_drain (resume i (fst (after_send_rejected m err s), snd (after_send_rejected m err s)))"
        using assms after_send_rejected_control True by (rule resume_single)
      then show ?thesis using SendRejected True AwaitSend by simp
    next
      case AwaitDelay
      then show ?thesis using SendRejected True assms by simp
    qed
  next
    case False
    then show ?thesis using SendRejected assms by simp
  qed
next
  case (DelayElapsed i)
  show ?thesis
  proof (cases "i < length (drains s)")
    case True
    show ?thesis
    proof (cases "drains s ! i")
      case (AwaitSend m f)
      then show ?thesis using DelayElapsed True assms by simp
    next
      case AwaitDelay
      have "single_drain (resume i (fst (while_loop s), snd (while_loop s)))"
        using assms while_loop_control True by (rule resume_single)
      then show ?thesis using DelayElapsed True AwaitDelay by simp
    qed
  next
    case False
    then show ?thesis using DelayElapsed assms by simp
  qed
qed (use assms in \<open>simp_all add: single_drain_def clear_queue_def\<close>)

lemma initial_single: "single_drain initial"
  by (simp add: single_drain_def initial_def)

lemma run_single: "single_drain s \<Longrightarrow> single_drain (run evs s)"
  by (induction evs rule: rev_induct) (simp_all add: step_single)

text \<open>
  C2. A call of processMessageQueue that finds the flag set, the queue empty or the
  client not ready returns at once and changes nothing. In every state the program
  reaches from its start, whatever the events, at most one execution of
  processMessageQueue is suspended, and while one is suspended the flag is set; so a
  request that queues messages or a tick of the scheduler that arrives while a drain
  is active leaves the set of executions as it is: no second drain is started.
\<close>

theorem at_most_one_drain:
  "(isProcessingQueue s \<or> messageQueue s = [] \<or> \<not> isClientReady s
      \<longrightarrow> processMessageQueue s = s) \<and>
   length (drains (run evs initial)) \<le> 1 \<and>
   (drains (run evs initial) = [] \<or> isProcessingQueue (run evs initial)) \<and>
   (drains (run evs initial) \<noteq> [] \<longrightarrow>
      drains (step (PostSendBulk messages) (run evs initial)) = drains (run evs initial) \<and>
      drains (step (PostSendEvent event_id notes) (run evs initial)) = drains (run evs initial) \<and>
      drains (step (PostSendTask task_id notes) (run evs initial)) = drains (run evs initial) \<and>
      drains (step CronTick (run evs initial)) = drains (run evs initial))"
proof -
  let ?s = "run evs initial"
  have sd: "single_drain ?s" using initial_single by (rule run_single)
  have busy: "drains ?s \<noteq> [] \<Longrightarrow> isProcessingQueue ?s"
    using sd by (auto simp: single_drain_def)
  have bulk: "drains (step (PostSendBulk messages) ?s) = drains ?s" if "drains ?s \<noteq> []"
    using busy [OF that]
    by (simp add: send_bulk_messages_def processMessageQueue_guard)
  have ev: "drains (step (PostSendEvent event_id notes) ?s) = drains ?s" if "drains ?s \<noteq> []"
    using busy [OF that]
    by (simp add: send_notifications_def processMessageQueue_guard)
  have ta: "drains (step (PostSendTask task_id notes) ?s) = drains ?s" if "drains ?s \<noteq> []"
    using busy [OF that]
    by (simp add: send_notifications_def processMessageQueue_guard)
  have tick: "drains (step CronTick ?s) = drains ?s" if "drains ?s \<noteq> []"
    using busy [OF that] by (simp add: cron_tick_def)
  show ?thesis
    using sd bulk ev ta tick
    by (simp add: single_drain_def processMessageQueue_guard)
qed

theorem at_most_one_drain_witness:
  "messageQueue initial = [] \<and> processMessageQueue initial = initial \<and>
   drains (run [OnReady, PostSendBulk scenario] initial) \<noteq> [] \<and>
   length (drains (run [OnReady, PostSendBulk scenario] initial)) \<le> 1 \<and>
   drains (step (PostSendBulk scenario) (run [OnReady, PostSendBulk scenario] initial))
     = drains (run [OnReady, PostSendBulk scenario] initial) \<and>
   drains (step CronTick (run [OnReady, PostSendBulk scenario] initial))
     = drains (run [OnReady, PostSendBulk scenario] initial)"
proof -
  have e: "messageQueue initial = []" by (simp add: initial_def)
  have d: "drains (run [OnReady, PostSendBulk scenario] initial) \<noteq> []"
    by (simp add: run_scenario queued_def)
  show ?thesis
    using e d at_most_one_drain [of initial "[OnReady, PostSendBulk scenario]" scenario]
    by simp
qed

subsection \<open>First in, first out\<close>

text \<open>
  The entries taken off the queue, followed by the queue, are the entries pushed; the
  sends are the chats of the entries taken. The identifiers of the pushed entries are
  below the counter and distinct.
\<close>

definition fifo :: "state \<Rightarrow> bool" where
  "fifo s \<longleftrightarrow>
     shifted (trace s) @ messageQueue s = pushed (trace s) \<and>
     sends (trace s) = List.map_filter chat_of (shifted (trace s))"

definition fresh_ids :: "state \<Rightarrow> bool" where
  "fresh_ids s \<longleftrightarrow>
     list_all (\<lambda>e. entry_id e < uuid_next s) (pushed (trace s)) \<and>
     distinct (map entry_id (pushed (trace s)))"

lemma wake_cases:
  assumes "ev = SendResolved i \<or> ev = SendRejected i err \<or> ev = DelayElapsed i"
  shows "step ev s = s \<or>
    (\<exists>k. step ev s = resume i k \<and> i < length (drains s) \<and> same_control s (fst k) \<and>
       (\<exists>as. drained s (fst k) as))"
proof (cases "i < length (drains s)")
  case False
  then show ?thesis using assms by auto
next
  case True
  let ?good = "\<lambda>k. i < length (drains s) \<and> same_control s (fst k) \<and> (\<exists>as. drained s (fst k) as)"
  have a: "?good (after_send_resolved m f s)" for m f
    using True after_send_resolved_control after_send_resolved_drained by simp
  have b: "?good (after_send_rejected m e s)" for m e
    using True after_send_rejected_control after_send_rejected_drained by simp
  have c: "?good (while_loop s)"
    using True while_loop_control [of s] while_loop_drained [of s] by auto
  show ?thesis
  proof (cases "drains s ! i")
    case (AwaitSend m f)
    consider "ev = SendResolved i" | "ev = SendRejected i err" | "ev = DelayElapsed i"
      using assms by blast
    then show ?thesis
    proof cases
      case 1
      then have "step ev s = resume i (after_send_resolved m f s)" using True AwaitSend by simp
      then show ?thesis using a by blast
    next
      case 2
      then have "step ev s = resume i (after_send_rejected m err s)" using True AwaitSend by simp
      then show ?thesis using b by blast
    next
      case 3
      then show ?thesis using True AwaitSend by simp
    qed
  next
    case AwaitDelay
    consider "ev = SendResolved i" | "ev = SendRejected i err" | "ev = DelayElapsed i"
      using assms by blast
    then show ?thesis
    proof cases
      case 3
      then have "step ev s = resume i (while_loop s)" using True AwaitDelay by simp
      then show ?thesis using c by blast
    qed (use True AwaitDelay in simp_all)
  qed
qed


lemma resume_frame [simp]:
  "pushed (trace (resume i k)) = pushed (trace (fst k))"
  "shifted (trace (resume i k)) = shifted (trace (fst k))"
  "sends (trace (resume i k)) = sends (trace (fst k))"
  "timeouts (trace (resume i k)) = timeouts (trace (fst k))"
  "messageQueue (resume i k) = messageQueue (fst k)"
  "uuid_next (resume i k) = uuid_next (fst k)"
  "isClientReady (resume i k) = isClientReady (fst k)"
  by (cases k; cases "snd k"; simp add: resume_def)+

lemma processMessageQueue_drained: "\<exists>as. drained s (processMessageQueue s) as \<and> timeouts as = []"
proof (cases "isProcessingQueue s \<or> messageQueue s = [] \<or> \<not> isClientReady s")
  case True
  then show ?thesis
    by (intro exI [of _ "[]"]) (simp add: processMessageQueue_guard drained_def List.map_filter_def)
next
  case False
  let ?log = "Console (Processing (length (messageQueue s)))"
  let ?s1 = "emit [?log] (s\<lparr> isProcessingQueue := True \<rparr>)"
  obtain as where as: "drained ?s1 (fst (while_loop ?s1)) as" "timeouts as = []"
    using while_loop_drained by blast
  have "drained s (processMessageQueue s) (?log # as) \<or>
        drained s (processMessageQueue s) (?log # as @ [Console Completed])"
    using False as(1)
    by (cases "while_loop ?s1"; cases "snd (while_loop ?s1)")
      (simp_all add: processMessageQueue_def drained_def)
  then show ?thesis using as(2) by auto
qed

lemma processMessageQueue_frame [simp]:
  "uuid_next (processMessageQueue s) = uuid_next s"
  "isClientReady (processMessageQueue s) = isClientReady s"
proof -
  let ?s1 = "emit [Console (Processing (length (messageQueue s)))] (s\<lparr> isProcessingQueue := True \<rparr>)"
  have "same_control ?s1 (fst (while_loop ?s1))" by (rule while_loop_control)
  then show "uuid_next (processMessageQueue s) = uuid_next s"
    "isClientReady (processMessageQueue s) = isClientReady s"
    by (cases "while_loop ?s1"; cases "snd (while_loop ?s1)";
        simp add: processMessageQueue_def same_control_def)+
qed

lemma fifo_drained: "fifo s \<Longrightarrow> drained s s' as \<Longrightarrow> fifo s'"
  by (simp add: fifo_def drained_def map_filter_append)

lemma fresh_ids_drained:
  "fresh_ids s \<Longrightarrow> drained s s' as \<Longrightarrow> uuid_next s' = uuid_next s \<Longrightarrow> fresh_ids s'"
  by (simp add: fresh_ids_def drained_def)

lemma fifo_push: "fifo s \<Longrightarrow> fifo (push_entry k n m s)"
  by (simp add: fifo_def push_entry_def Let_def)

lemma fresh_ids_push: "fresh_ids s \<Longrightarrow> fresh_ids (push_entry k n m s)"
  by (auto simp: fresh_ids_def push_entry_def Let_def list_all_iff)

lemma forEach_bulk_fifo: "fifo s \<Longrightarrow> fifo (forEach_bulk msgs s)"
  by (induction msgs s rule: forEach_bulk.induct) (simp_all add: fifo_push)

lemma forEach_notify_fifo: "fifo s \<Longrightarrow> fifo (forEach_notify k msgs s)"
  by (induction k msgs s rule: forEach_notify.induct) (simp_all add: fifo_push)

lemma forEach_bulk_fresh: "fresh_ids s \<Longrightarrow> fresh_ids (forEach_bulk msgs s)"
  by (induction msgs s rule: forEach_bulk.induct) (simp_all add: fresh_ids_push)

lemma forEach_notify_fresh: "fresh_ids s \<Longrightarrow> fresh_ids (forEach_notify k msgs s)"
  by (induction k msgs s rule: forEach_notify.induct) (simp_all add: fresh_ids_push)

lemma processMessageQueue_fifo: "fifo s \<Longrightarrow> fifo (processMessageQueue s)"
  using processMessageQueue_drained [of s] by (auto intro: fifo_drained)

lemma processMessageQueue_fresh: "fresh_ids s \<Longrightarrow> fresh_ids (processMessageQueue s)"
  using processMessageQueue_drained [of s] by (auto intro: fresh_ids_drained)

lemma fifo_resume [simp]: "fifo (resume i k) = fifo (fst k)"
  by (simp add: fifo_def)

lemma fresh_ids_resume [simp]: "fresh_ids (resume i k) = fresh_ids (fst k)"
  by (simp add: fresh_ids_def)

lemma step_fifo:
  assumes "fifo s" "ev \<noteq> PostClearQueue"
  shows "fifo (step ev s)"
proof (cases "\<exists>i err. ev = SendResolved i \<or> ev = SendRejected i err \<or> ev = DelayElapsed i")
  case True
  then obtain i err where "ev = SendResolved i \<or> ev = SendRejected i err \<or> ev = DelayElapsed i"
    by blast
  from wake_cases [OF this, of s] show ?thesis
    using assms(1) by (auto intro: fifo_drained)
next
  case False
  then show ?thesis
    using assms
    by (cases ev)
      (simp_all add: send_bulk_messages_def send_notifications_def cron_tick_def
        processMessageQueue_fifo forEach_bulk_fifo forEach_notify_fifo, simp_all add: fifo_def)
qed

lemma step_fresh:
  assumes "fresh_ids s"
  shows "fresh_ids (step ev s)"
proof (cases "\<exists>i err. ev = SendResolved i \<or> ev = SendRejected i err \<or> ev = DelayElapsed i")
  case True
  then obtain i err where "ev = SendResolved i \<or> ev = SendRejected i err \<or> ev = DelayElapsed i"
    by blast
  from wake_cases [OF this, of s] show ?thesis
    using assms(1) by (auto intro: fresh_ids_drained simp: same_control_def)
next
  case False
  then show ?thesis
    using assms
    by (cases ev)
      (simp_all add: send_bulk_messages_def send_notifications_def cron_tick_def clear_queue_def
        processMessageQueue_fresh forEach_bulk_fresh forEach_notify_fresh, simp_all add: fresh_ids_def)
qed

lemma run_fifo: "fifo s \<Longrightarrow> PostClearQueue \<notin> set evs \<Longrightarrow> fifo (run evs s)"
  by (induction evs rule: rev_induct) (auto intro: step_fifo)

lemma run_fresh: "fresh_ids s \<Longrightarrow> fresh_ids (run evs s)"
  by (induction evs rule: rev_induct) (simp_all add: step_fresh)

lemma initial_fifo: "fifo initial"
  by (simp add: fifo_def initial_def List.map_filter_def)

lemma initial_fresh: "fresh_ids initial"
  by (simp add: fresh_ids_def initial_def)

text \<open>
  C3. In every run of the program in which the queue is never cleared, the entries
  taken off the queue so far, followed by the entries still queued, are the entries
  pushed so far, in the order of their pushes; the calls of sendMessage are, in the same
  order, the chats of the entries taken (an entry whose number is not a string is taken
  and fails before any send); and no entry is taken twice, the identifiers of the
  entries taken being distinct.
\<close>

theorem strict_fifo_order:
  assumes "PostClearQueue \<notin> set evs"
  shows "shifted (trace (run evs initial)) @ messageQueue (run evs initial)
           = pushed (trace (run evs initial)) \<and>
         sends (trace (run evs initial))
           = List.map_filter chat_of (shifted (trace (run evs initial))) \<and>
         distinct (map entry_id (shifted (trace (run evs initial))))"
proof -
  let ?s = "run evs initial"
  have f: "fifo ?s" using initial_fifo assms by (rule run_fifo)
  have "fresh_ids ?s" using initial_fresh by (rule run_fresh)
  then have "distinct (map entry_id (pushed (trace ?s)))" by (simp add: fresh_ids_def)
  then have "distinct (map entry_id (shifted (trace ?s) @ messageQueue ?s))"
    using f by (simp add: fifo_def)
  then have "distinct (map entry_id (shifted (trace ?s)))" by simp
  then show ?thesis using f by (simp add: fifo_def)
qed

theorem strict_fifo_order_witness:
  "PostClearQueue \<notin> set [OnReady, PostSendBulk scenario, SendResolved 0, DelayElapsed 0] \<and>
   sends (trace (run [OnReady, PostSendBulk scenario, SendResolved 0, DelayElapsed 0] initial))
     = [(''919876543210@c.us'', Str ''one''), (''919876543211@c.us'', Str ''two'')] \<and>
   shifted (trace (run [OnReady, PostSendBulk scenario, SendResolved 0, DelayElapsed 0] initial))
     = [item 0 ''9876543210'' ''one'', item 1 ''919876543211'' ''two''] \<and>
   shifted (trace (run [OnReady, PostSendBulk scenario, SendResolved 0, DelayElapsed 0] initial)) @
     messageQueue (run [OnReady, PostSendBulk scenario, SendResolved 0, DelayElapsed 0] initial)
     = pushed (trace (run [OnReady, PostSendBulk scenario, SendResolved 0, DelayElapsed 0] initial)) \<and>
   distinct (map entry_id
     (shifted (trace (run [OnReady, PostSendBulk scenario, SendResolved 0, DelayElapsed 0] initial))))"
proof -
  have n: "PostClearQueue \<notin> set [OnReady, PostSendBulk scenario, SendResolved 0, DelayElapsed 0]"
    by simp
  have r: "run [OnReady, PostSendBulk scenario, SendResolved 0, DelayElapsed 0] initial
      = step (DelayElapsed 0) (step (SendResolved 0) (run [OnReady, PostSendBulk scenario] initial))"
    by (simp add: run_def)
  have t: "trace (run [OnReady, PostSendBulk scenario, SendResolved 0, DelayElapsed 0] initial)
      = trace queued @ [Console (MessageSent ''919876543210''), Timeout 2000,
                        Shift (item 1 ''919876543211'' ''two''),
                        SendMessage ''919876543211@c.us'' (Str ''two'')]"
    unfolding r run_scenario delay_queued by simp
  have s: "sends (trace (run [OnReady, PostSendBulk scenario, SendResolved 0, DelayElapsed 0] initial))
     = [(''919876543210@c.us'', Str ''one''), (''919876543211@c.us'', Str ''two'')]"
    "shifted (trace (run [OnReady, PostSendBulk scenario, SendResolved 0, DelayElapsed 0] initial))
     = [item 0 ''9876543210'' ''one'', item 1 ''919876543211'' ''two'']"
    unfolding t by (simp_all add: queued_def)
  show ?thesis
    using n s strict_fifo_order [OF n] by simp
qed

subsection \<open>Pacing\<close>

text \<open>
  A step from \<open>s\<close> to \<open>s'\<close> paces execution \<open>i\<close>: it has set the timer of 2000
  milliseconds once, has taken no entry off the queue, and leaves the execution waiting
  for the timer.
\<close>

definition paced :: "nat \<Rightarrow> state \<Rightarrow> state \<Rightarrow> bool" where
  "paced i s s' \<longleftrightarrow>
     timeouts (added s s') = [2000] \<and> shifted (added s s') = [] \<and>
     i < length (drains s') \<and> drains s' ! i = AwaitDelay"

text \<open>
  On the success path the pacing is there: when the send of an iteration resolves (and
  the status callback, if the entry has one, returns from the call with \<open>sent\<close>), the
  loop sets the timer and takes no entry until that timer fires; the next iteration is
  the step of the timer.
\<close>

lemma pacing_after_successful_send:
  assumes "i < length (drains s)" and "drains s ! i = AwaitSend m f"
    and ok: "statusCallback m = None \<or> (\<exists>cb. statusCallback m = Some cb \<and> throws_on_sent cb = None)"
  shows "paced i s (step (SendResolved i) s)"
    and "step (DelayElapsed i) (step (SendResolved i) s)
           = resume i (while_loop (step (SendResolved i) s))"
proof -
  define rep where "rep = Console (MessageSent f) #
    (case statusCallback m of None \<Rightarrow> [] | Some cb \<Rightarrow> [Report m Sent])"
  have k: "after_send_resolved m f s = (emit (rep @ [Timeout 2000]) s, Suspended AwaitDelay)"
    using ok by (auto simp: after_send_resolved_eq rep_def)
  have st: "step (SendResolved i) s = (emit (rep @ [Timeout 2000]) s)\<lparr> drains := (drains s)[i := AwaitDelay] \<rparr>"
    using assms(1,2) k by (simp add: resume_def)
  have tr: "trace (step (SendResolved i) s) = trace s @ (rep @ [Timeout 2000])"
    unfolding st by simp
  have "timeouts rep = []" "shifted rep = []"
    by (simp_all add: rep_def split: option.split)
  then show "paced i s (step (SendResolved i) s)"
    using assms(1) added_append [OF tr] unfolding paced_def st by simp
  show "step (DelayElapsed i) (step (SendResolved i) s)
      = resume i (while_loop (step (SendResolved i) s))"
    using assms(1) unfolding st by simp
qed

text \<open>
  C1 fails on the code. In the scenario of the specification the client is ready and
  the bulk route has queued the three messages, so the first send is in flight. Had
  that send resolved, the loop would set the timer of 2000 milliseconds and wait. When
  it rejects, the catch block logs the failure and the loop takes the second entry and
  calls sendMessage for it in the same step: no timer is set between the two sends,
  and the execution is not waiting for one.
\<close>

theorem no_pacing_after_failed_send:
  "drains (run [OnReady, PostSendBulk scenario] initial)
     = [AwaitSend (item 0 ''9876543210'' ''one'') ''919876543210''] \<and>
   paced 0 (run [OnReady, PostSendBulk scenario] initial)
        (step (SendResolved 0) (run [OnReady, PostSendBulk scenario] initial)) \<and>
   added (run [OnReady, PostSendBulk scenario] initial)
         (step (SendRejected 0 ''offline'') (run [OnReady, PostSendBulk scenario] initial))
     = [Console (SendFailed (Str ''9876543210'') (Rejected ''offline'')),
        Shift (item 1 ''919876543211'' ''two''),
        SendMessage ''919876543211@c.us'' (Str ''two'')] \<and>
   drains (step (SendRejected 0 ''offline'') (run [OnReady, PostSendBulk scenario] initial))
     = [AwaitSend (item 1 ''919876543211'' ''two'') ''919876543211''] \<and>
   \<not> paced 0 (run [OnReady, PostSendBulk scenario] initial)
        (step (SendRejected 0 ''offline'') (run [OnReady, PostSendBulk scenario] initial))"
proof -
  have p: "paced 0 queued (step (SendResolved 0) queued)"
    unfolding queued_resolved by (simp add: paced_def queued_def)
  have r: "added queued (step (SendRejected 0 ''offline'') queued)
     = [Console (SendFailed (Str ''9876543210'') (Rejected ''offline'')),
        Shift (item 1 ''919876543211'' ''two''),
        SendMessage ''919876543211@c.us'' (Str ''two'')]"
    "drains (step (SendRejected 0 ''offline'') queued)
     = [AwaitSend (item 1 ''919876543211'' ''two'') ''919876543211'']"
    "\<not> paced 0 queued (step (SendRejected 0 ''offline'') queued)"
    unfolding queued_rejected by (simp_all add: paced_def queued_def)
  have d: "drains queued = [AwaitSend (item 0 ''9876543210'' ''one'') ''919876543210'']"
    by (simp add: queued_def)
  show ?thesis
    unfolding run_scenario using p r d by simp
qed

subsection \<open>The entries the routes queue, and the send in flight\<close>

text \<open>
  What a run of the loop from state \<open>s\<close> that ends as \<open>k\<close> has done: it has changed
  neither the flags nor the executions, it has only taken entries off the head of the
  queue, and when it is suspended at a send, the entry in flight comes from the queue,
  has been shifted, and \<open>sendMessage\<close> has been called with its chat id and body.
\<close>

definition in_flight :: "action list \<Rightarrow> pc \<Rightarrow> bool" where
  "in_flight tr p =
     (case p of
        AwaitSend m f \<Rightarrow>
          chat_of m = Some (f @ ''@c.us'', message m) \<and> Shift m \<in> set tr \<and>
          SendMessage (f @ ''@c.us'') (message m) \<in> set tr
      | AwaitDelay \<Rightarrow> True)"

definition continues :: "state \<Rightarrow> state \<times> loop_exit \<Rightarrow> bool" where
  "continues s k \<longleftrightarrow>
     same_control s (fst k) \<and> (\<exists>as. drained s (fst k) as) \<and>
     (case snd k of
        Suspended p \<Rightarrow>
          in_flight (trace (fst k)) p \<and>
          (case p of AwaitSend m f \<Rightarrow> m \<in> set (messageQueue s) | AwaitDelay \<Rightarrow> True)
      | Returned \<Rightarrow> messageQueue (fst k) = [] \<or> \<not> isClientReady s
      | Thrown e \<Rightarrow> True)"

text \<open>
  No entry carries a status callback, in the queue or in flight (the routes attach
  none), and every send in flight has been issued.
\<close>

definition plain :: "state \<Rightarrow> bool" where
  "plain s \<longleftrightarrow>
     list_all (\<lambda>m. statusCallback m = None) (messageQueue s) \<and>
     list_all (\<lambda>p. case p of AwaitSend m f \<Rightarrow> statusCallback m = None | AwaitDelay \<Rightarrow> True)
       (drains s) \<and>
     list_all (in_flight (trace s)) (drains s)"

lemma in_flight_mono: "in_flight tr p \<Longrightarrow> in_flight (tr @ as) p"
  by (auto simp: in_flight_def split: pc.splits)

lemma in_flight_delay [simp]: "in_flight tr AwaitDelay"
  by (simp add: in_flight_def)

lemma while_loop_in_flight:
  "case snd (while_loop s) of
     Suspended p \<Rightarrow>
       in_flight (trace (fst (while_loop s))) p \<and>
       (case p of AwaitSend m f \<Rightarrow> m \<in> set (messageQueue s) | AwaitDelay \<Rightarrow> True)
   | _ \<Rightarrow> True"
proof (rule while_loop_cases [where P = "\<lambda>s k. case snd k of
     Suspended p \<Rightarrow>
       in_flight (trace (fst k)) p \<and>
       (case p of AwaitSend m f \<Rightarrow> m \<in> set (messageQueue s) | AwaitDelay \<Rightarrow> True)
   | _ \<Rightarrow> True"])
  fix s :: state and m rest s2
  assume q: "messageQueue s = m # rest"
    and s2: "s2 = emit (Shift m # failed_report m TypeError) (s\<lparr> messageQueue := rest \<rparr>)"
    and ih: "case snd (while_loop s2) of
     Suspended p \<Rightarrow>
       in_flight (trace (fst (while_loop s2))) p \<and>
       (case p of AwaitSend m f \<Rightarrow> m \<in> set (messageQueue s2) | AwaitDelay \<Rightarrow> True)
   | _ \<Rightarrow> True"
  have "messageQueue s2 = rest" by (simp add: s2)
  then show "case snd (while_loop s2) of
     Suspended p \<Rightarrow>
       in_flight (trace (fst (while_loop s2))) p \<and>
       (case p of AwaitSend m f \<Rightarrow> m \<in> set (messageQueue s) | AwaitDelay \<Rightarrow> True)
   | _ \<Rightarrow> True"
    using ih q by (auto split: loop_exit.splits pc.splits)
qed (simp_all add: in_flight_def chat_of_Str)

lemma while_loop_continues: "continues s (while_loop s)"
  using while_loop_control [of s] while_loop_drained [of s] while_loop_in_flight [of s]
    while_loop_end [of s]
  by (auto simp: continues_def split: loop_exit.splits)

lemma continues_emit:
  assumes "pushed bs = []" "shifted bs = []" "sends bs = []"
  shows "continues s (while_loop (emit bs s))"
proof -
  have c: "continues (emit bs s) (while_loop (emit bs s))" by (rule while_loop_continues)
  then obtain as where "drained (emit bs s) (fst (while_loop (emit bs s))) as"
    by (auto simp: continues_def)
  then have "drained s (fst (while_loop (emit bs s))) (bs @ as)"
    using assms by (rule drained_emit [rotated 3])
  then have "\<exists>as. drained s (fst (while_loop (emit bs s))) as" ..
  then show ?thesis
    using c by (auto simp: continues_def same_control_def split: loop_exit.splits pc.splits)
qed

lemma continues_delay:
  assumes "pushed bs = []" "shifted bs = []" "sends bs = []"
  shows "continues s (emit bs s, Suspended AwaitDelay)"
  using drained_base [OF assms, of s] by (auto simp: continues_def)

lemma continues_thrown:
  assumes "pushed bs = []" "shifted bs = []" "sends bs = []"
  shows "continues s (emit bs s, Thrown e)"
  using drained_base [OF assms, of s] by (auto simp: continues_def)

lemma after_send_rejected_continues: "continues s (after_send_rejected m err s)"
  by (cases "catch_throws m")
    (simp_all add: after_send_rejected_eq continues_emit continues_thrown)

lemma after_send_resolved_continues: "continues s (after_send_resolved m f s)"
  by (simp add: after_send_resolved_eq continues_emit continues_thrown continues_delay
      split: option.split)

lemma wake_continues:
  assumes "ev = SendResolved i \<or> ev = SendRejected i err \<or> ev = DelayElapsed i"
  shows "step ev s = s \<or>
    (\<exists>k. step ev s = resume i k \<and> i < length (drains s) \<and> continues s k)"
proof (cases "i < length (drains s)")
  case False
  then show ?thesis using assms by auto
next
  case True
  show ?thesis
  proof (cases "drains s ! i")
    case (AwaitSend m f)
    consider "ev = SendResolved i" | "ev = SendRejected i err" | "ev = DelayElapsed i"
      using assms by blast
    then show ?thesis
    proof cases
      case 1
      then have "step ev s = resume i (after_send_resolved m f s)" using True AwaitSend by simp
      then show ?thesis using True after_send_resolved_continues by blast
    next
      case 2
      then have "step ev s = resume i (after_send_rejected m err s)" using True AwaitSend by simp
      then show ?thesis using True after_send_rejected_continues by blast
    next
      case 3
      then show ?thesis using True AwaitSend by simp
    qed
  next
    case AwaitDelay
    consider "ev = SendResolved i" | "ev = SendRejected i err" | "ev = DelayElapsed i"
      using assms by blast
    then show ?thesis
    proof cases
      case 3
      then have "step ev s = resume i (while_loop s)" using True AwaitDelay by simp
      then show ?thesis using True while_loop_continues by blast
    qed (use True AwaitDelay in simp_all)
  qed
qed

lemma list_all_update: "list_all P xs \<Longrightarrow> P x \<Longrightarrow> list_all P (xs[i := x])"
  by (auto simp: list_all_iff dest: set_update_subset_insert [THEN subsetD])

lemma list_all_remove_nth: "list_all P xs \<Longrightarrow> list_all P (remove_nth i xs)"
  by (auto simp: list_all_iff remove_nth_def dest: in_set_takeD in_set_dropD)

lemma drained_queue_subset:
  assumes "drained s s' as"
  shows "set (messageQueue s') \<subseteq> set (messageQueue s)"
proof -
  have "messageQueue s = shifted as @ messageQueue s'" using assms by (simp add: drained_def)
  then show ?thesis by auto
qed

lemma plain_after:
  assumes p: "plain s" and c: "continues s k"
  shows "list_all (\<lambda>m. statusCallback m = None) (messageQueue (fst k))"
    and "list_all (\<lambda>p. case p of AwaitSend m f \<Rightarrow> statusCallback m = None | AwaitDelay \<Rightarrow> True)
       (drains (fst k))"
    and "list_all (in_flight (trace (fst k))) (drains (fst k))"
    and "snd k = Suspended q \<Longrightarrow>
       (case q of AwaitSend m f \<Rightarrow> statusCallback m = None | AwaitDelay \<Rightarrow> True) \<and>
       in_flight (trace (fst k)) q"
proof -
  obtain as where d: "drained s (fst k) as" using c by (auto simp: continues_def)
  have sc: "drains (fst k) = drains s" using c by (simp add: continues_def same_control_def)
  have tr: "trace (fst k) = trace s @ as" using d by (simp add: drained_def)
  show "list_all (\<lambda>m. statusCallback m = None) (messageQueue (fst k))"
    using p drained_queue_subset [OF d] by (auto simp: plain_def list_all_iff)
  show "list_all (\<lambda>p. case p of AwaitSend m f \<Rightarrow> statusCallback m = None | AwaitDelay \<Rightarrow> True)
       (drains (fst k))"
    using p sc by (simp add: plain_def)
  show "list_all (in_flight (trace (fst k))) (drains (fst k))"
    using p sc tr by (auto simp: plain_def list_all_iff intro: in_flight_mono)
  show "(case q of AwaitSend m f \<Rightarrow> statusCallback m = None | AwaitDelay \<Rightarrow> True) \<and>
       in_flight (trace (fst k)) q" if "snd k = Suspended q"
    using p c that by (auto simp: continues_def plain_def list_all_iff split: pc.splits)
qed

lemma plain_resume:
  assumes "plain s" "continues s k"
  shows "plain (resume i k)"
proof (cases "snd k")
  case (Suspended q)
  then have r: "resume i k = (fst k)\<lparr> drains := (drains (fst k))[i := q] \<rparr>"
    by (cases k) (simp add: resume_def)
  show ?thesis
    unfolding r plain_def
    using plain_after [OF assms] Suspended by (simp add: list_all_update)
next
  case Returned
  then have r: "resume i k = after_loop ((fst k)\<lparr> drains := remove_nth i (drains (fst k)) \<rparr>)"
    by (cases k) (simp add: resume_def)
  have "list_all (in_flight (trace (fst k) @ [Console Completed])) (drains (fst k))"
    using plain_after(3) [OF assms] by (auto simp: list_all_iff intro: in_flight_mono)
  then show ?thesis
    unfolding r plain_def
    using plain_after(1,2) [OF assms] by (simp add: list_all_remove_nth)
next
  case (Thrown e)
  then have r: "resume i k = (fst k)\<lparr> drains := remove_nth i (drains (fst k)) \<rparr>"
    by (cases k) (simp add: resume_def)
  show ?thesis
    unfolding r plain_def
    using plain_after(1,2,3) [OF assms] by (simp add: list_all_remove_nth)
qed

lemma plain_emit: "plain s \<Longrightarrow> plain (emit as s)"
  by (auto simp: plain_def list_all_iff intro: in_flight_mono)

lemma plain_flag [simp]: "plain (s\<lparr> isProcessingQueue := b \<rparr>) = plain s"
  by (simp add: plain_def)

lemma plain_processMessageQueue:
  assumes "plain s"
  shows "plain (processMessageQueue s)"
proof (cases "isProcessingQueue s \<or> messageQueue s = [] \<or> \<not> isClientReady s")
  case True
  then show ?thesis using assms by (simp add: processMessageQueue_guard)
next
  case False
  let ?s1 = "emit [Console (Processing (length (messageQueue s)))] (s\<lparr> isProcessingQueue := True \<rparr>)"
  let ?k = "while_loop ?s1"
  have p1: "plain ?s1" using assms by (simp add: plain_emit)
  have c: "continues ?s1 ?k" by (rule while_loop_continues)
  show ?thesis
  proof (cases "snd ?k")
    case (Suspended q)
    then have r: "processMessageQueue s = (fst ?k)\<lparr> drains := drains (fst ?k) @ [q] \<rparr>"
      using False by (cases ?k) (simp add: processMessageQueue_def)
    show ?thesis
      unfolding r plain_def
      using plain_after [OF p1 c] Suspended by simp
  next
    case Returned
    then have r: "processMessageQueue s = after_loop (fst ?k)"
      using False by (cases ?k) (simp add: processMessageQueue_def)
    have "list_all (in_flight (trace (fst ?k) @ [Console Completed])) (drains (fst ?k))"
      using plain_after(3) [OF p1 c] by (auto simp: list_all_iff intro: in_flight_mono)
    then show ?thesis
      unfolding r plain_def
      using plain_after(1,2) [OF p1 c] by simp
  next
    case (Thrown e)
    then have r: "processMessageQueue s = fst ?k"
      using False by (cases ?k) (simp add: processMessageQueue_def)
    show ?thesis
      unfolding r plain_def
      using plain_after(1,2,3) [OF p1 c] by simp
  qed
qed

lemma plain_push: "plain s \<Longrightarrow> plain (push_entry k n m s)"
  by (auto simp: plain_def push_entry_def Let_def list_all_iff intro: in_flight_mono)

lemma plain_forEach_bulk: "plain s \<Longrightarrow> plain (forEach_bulk msgs s)"
  by (induction msgs s rule: forEach_bulk.induct) (simp_all add: plain_push)

lemma plain_forEach_notify: "plain s \<Longrightarrow> plain (forEach_notify k msgs s)"
  by (induction k msgs s rule: forEach_notify.induct) (simp_all add: plain_push)

lemma plain_step:
  assumes "plain s"
  shows "plain (step ev s)"
proof (cases "\<exists>i err. ev = SendResolved i \<or> ev = SendRejected i err \<or> ev = DelayElapsed i")
  case True
  then obtain i err where "ev = SendResolved i \<or> ev = SendRejected i err \<or> ev = DelayElapsed i"
    by blast
  from wake_continues [OF this, of s] show ?thesis
    using assms by (auto intro: plain_resume)
next
  case False
  then show ?thesis
    using assms
    by (cases ev)
      (simp_all add: send_bulk_messages_def send_notifications_def cron_tick_def clear_queue_def
        plain_processMessageQueue plain_forEach_bulk plain_forEach_notify, simp_all add: plain_def)
qed

lemma plain_initial: "plain initial"
  by (simp add: plain_def initial_def)

lemma plain_run: "plain s \<Longrightarrow> plain (run evs s)"
  by (induction evs rule: rev_induct) (simp_all add: plain_step)

subsection \<open>Driving a drain to its end\<close>

text \<open>
  The event that wakes a suspended execution: the outcome of its send, taken from
  \<open>result\<close> (\<open>None\<close> when the send resolves, the message of the rejection otherwise), or
  its timer.
\<close>

fun wake :: "(entry \<Rightarrow> string option) \<Rightarrow> pc \<Rightarrow> event" where
  "wake result (AwaitSend m f) =
     (case result m of None \<Rightarrow> SendResolved 0 | Some err \<Rightarrow> SendRejected 0 err)"
| "wake result AwaitDelay = DelayElapsed 0"

text \<open>
  The first suspended execution is woken, at most \<open>n\<close> times, with nothing else
  happening in between.
\<close>

fun drive :: "(entry \<Rightarrow> string option) \<Rightarrow> nat \<Rightarrow> state \<Rightarrow> state" where
  "drive result 0 s = s"
| "drive result (Suc n) s =
     (case drains s of [] \<Rightarrow> s | p # ps \<Rightarrow> drive result n (step (wake result p) s))"



text \<open>What the iteration in flight still writes when the loop ends after it.\<close>

definition last_report :: "(entry \<Rightarrow> string option) \<Rightarrow> pc \<Rightarrow> action list" where
  "last_report result p =
     (case p of
        AwaitSend m f \<Rightarrow>
          (case result m of
             None \<Rightarrow> [Console (MessageSent f), Timeout 2000]
           | Some err \<Rightarrow> [Console (SendFailed (number m) (Rejected err))])
      | AwaitDelay \<Rightarrow> [])"

lemma drive_idle [simp]: "drains s = [] \<Longrightarrow> drive result n s = s"
  by (cases n) simp_all










text \<open>
  With the client not ready, or the queue empty, a drain ends after the iteration in
  flight: the queue stays as it is, the flag is cleared, and nothing is written but the
  report of that iteration and the completion.
\<close>

lemma drive_ends:
  assumes pl: "plain s" and d: "drains s = [p]"
    and nr: "\<not> isClientReady s \<or> messageQueue s = []"
  shows "drive result 2 s =
     after_loop ((emit (last_report result p) s)\<lparr> drains := [] \<rparr>)"
proof -
  have ex: "while_loop (emit bs t) = (emit bs t, Returned)"
    if "\<not> isClientReady t \<or> messageQueue t = []" for bs t
    using that by (intro while_loop_exit) auto
  have two: "drive result 2 t = drive result (Suc (Suc 0)) t" for t
    by (simp add: numeral_2_eq_2)
  show ?thesis
  proof (cases p)
    case AwaitDelay
    have "step (DelayElapsed 0) s = after_loop (s\<lparr> drains := [] \<rparr>)"
      using d AwaitDelay ex [of s "[]"] nr by (simp add: resume_def remove_nth_def)
    then show ?thesis
      using d AwaitDelay unfolding two by (simp add: last_report_def)
  next
    case (AwaitSend m f)
    then have cb: "statusCallback m = None" using pl d by (simp add: plain_def)
    show ?thesis
    proof (cases "result m")
      case None
      let ?s1 = "(emit [Console (MessageSent f), Timeout 2000] s)\<lparr> drains := [AwaitDelay] \<rparr>"
      have a: "step (SendResolved 0) s = ?s1"
        using d AwaitSend cb by (simp add: after_send_resolved_eq resume_def)
      have "while_loop ?s1 = (?s1, Returned)"
        using nr by (intro while_loop_exit) auto
      then have b: "step (DelayElapsed 0) ?s1 =
          after_loop ((emit [Console (MessageSent f), Timeout 2000] s)\<lparr> drains := [] \<rparr>)"
        by (simp add: resume_def remove_nth_def)
      show ?thesis
        unfolding two using d AwaitSend None a b by (simp add: last_report_def)
    next
      case (Some err)
      let ?bs = "[Console (SendFailed (number m) (Rejected err))]"
      have "step (SendRejected 0 err) s = resume 0 (while_loop (emit ?bs s))"
        using d AwaitSend cb
        by (simp add: after_send_rejected_eq catch_throws_def failed_report_def)
      then have "step (SendRejected 0 err) s = after_loop ((emit ?bs s)\<lparr> drains := [] \<rparr>)"
        using ex [of s ?bs] nr d by (simp add: resume_def remove_nth_def)
      then show ?thesis
        unfolding two using d AwaitSend Some by (simp add: last_report_def)
    qed
  qed
qed

subsection \<open>Losing readiness, and clearing the queue, while a drain is active\<close>

lemma last_report_simps [simp]:
  "pushed (last_report result p) = []" "shifted (last_report result p) = []"
  "sends (last_report result p) = []"
  by (simp_all add: last_report_def split: pc.split option.split)



text \<open>
  C10. In any state the program reaches with a drain suspended in an iteration, let
  the queue be cleared. The entry of that iteration has left the queue before and its
  send has been issued; clearing empties the queue and touches neither the suspended
  execution nor what has happened. The iteration then finishes as it would have: the
  outcome of its send is logged (and after a success the timer is set), the loop finds
  the queue empty at its next check, the completion is logged, no drain is left and
  the flag is clear.
\<close>

theorem clear_queue_during_drain:
  assumes s: "s = run evs initial" and d: "drains s = [p]"
    and s1: "s1 = step PostClearQueue s" and s2: "s2 = drive result 2 s1"
  shows "in_flight (trace s) p \<and>
         drains s1 = [p] \<and> trace s1 = trace s \<and> messageQueue s1 = [] \<and>
         added s1 s2 = last_report result p @ [Console Completed] \<and>
         drains s2 = [] \<and> \<not> isProcessingQueue s2 \<and> messageQueue s2 = []"
proof -
  have pl: "plain s" unfolding s using plain_initial by (rule plain_run)
  have fl: "in_flight (trace s) p" using pl d by (simp add: plain_def)
  have p1: "plain s1" unfolding s1 using pl by (rule plain_step)
  have c1: "drains s1 = [p]" "trace s1 = trace s" "messageQueue s1 = []"
    unfolding s1 using d by (simp_all add: clear_queue_def)
  have e2: "s2 = after_loop ((emit (last_report result p) s1)\<lparr> drains := [] \<rparr>)"
    unfolding s2 using p1 c1(1) c1(3) by (intro drive_ends) simp_all
  have "trace s2 = trace s1 @ (last_report result p @ [Console Completed])"
    unfolding e2 by simp
  then have a: "added s1 s2 = last_report result p @ [Console Completed]"
    by (rule added_append)
  have "drains s2 = []" "\<not> isProcessingQueue s2" "messageQueue s2 = []"
    unfolding e2 using c1(3) by simp_all
  then show ?thesis using fl c1 a by simp
qed


theorem clear_queue_during_drain_witness:
  "drains (run [OnReady, PostSendBulk scenario] initial)
     = [AwaitSend (item 0 ''9876543210'' ''one'') ''919876543210''] \<and>
   SendMessage ''919876543210@c.us'' (Str ''one'')
     \<in> set (trace (run [OnReady, PostSendBulk scenario] initial)) \<and>
   messageQueue (step PostClearQueue (run [OnReady, PostSendBulk scenario] initial)) = [] \<and>
   added (step PostClearQueue (run [OnReady, PostSendBulk scenario] initial))
         (drive (\<lambda>m. None) 2 (step PostClearQueue (run [OnReady, PostSendBulk scenario] initial)))
     = [Console (MessageSent ''919876543210''), Timeout 2000, Console Completed] \<and>
   \<not> isProcessingQueue
       (drive (\<lambda>m. None) 2 (step PostClearQueue (run [OnReady, PostSendBulk scenario] initial)))"
proof -
  have d: "drains (run [OnReady, PostSendBulk scenario] initial)
     = [AwaitSend (item 0 ''9876543210'' ''one'') ''919876543210'']"
    by (simp add: run_scenario queued_def)
  have l: "last_report (\<lambda>m. None) (AwaitSend (item 0 ''9876543210'' ''one'') ''919876543210'')
     = [Console (MessageSent ''919876543210''), Timeout 2000]"
    by (simp add: last_report_def)
  from clear_queue_during_drain [OF refl d refl refl, of "\<lambda>m. None"]
  show ?thesis
    unfolding l using d by (simp add: in_flight_def)
qed

subsection \<open>The flag after an execution has ended\<close>

text \<open>The flag is set only while an execution is suspended.\<close>

definition idle_clear :: "state \<Rightarrow> bool" where
  "idle_clear s \<longleftrightarrow> drains s \<noteq> [] \<or> \<not> isProcessingQueue s"





lemma idle_clear_forEach [simp]:
  "idle_clear (forEach_bulk msgs s) = idle_clear s"
  "idle_clear (forEach_notify k msgs s) = idle_clear s"
  by (simp_all add: idle_clear_def)






section \<open>The notification templates\<close>

subsection \<open>What the templates use of the JavaScript runtime\<close>

text \<open>
  What stays open about the engine the server runs on:
  \<^item> \<open>tz_offset\<close>: local time minus UTC in milliseconds, taken as constant (a zone
    without a change of offset at the moments concerned);
  \<^item> \<open>parse_other\<close>: \<open>Date.parse\<close> on a string that has a digit and is in neither of
    the two ISO forms modelled below (those formats are up to the engine); the time
    value in milliseconds, or \<open>None\<close> for \<open>NaN\<close>;
  \<^item> \<open>locale_error\<close>: the error \<open>toLocaleDateString\<close> throws on this engine, if it
    throws at all;
  \<^item> \<open>toUpperCase\<close> of a string;
  \<^item> \<open>string_greater s n\<close>: the comparison \<open>s > n\<close> of a string with a number, which
    converts the string to a number first;
  \<^item> \<open>number_text\<close>: \<open>String(n)\<close> for a number that is not an integer below
    \<open>10^21\<close> (a fraction, or the exponent notation from \<open>1e21\<close> on).
\<close>

record js_runtime =
  tz_offset :: int
  parse_other :: "string \<Rightarrow> int option"
  locale_error :: "string option"
  toUpperCase :: "string \<Rightarrow> string"
  string_greater :: "string \<Rightarrow> rat \<Rightarrow> bool"
  number_text :: "rat \<Rightarrow> string"

text \<open>\<open>String(v)\<close> as a template literal computes it; an integer is printed in decimal.\<close>

definition digit_char :: "nat \<Rightarrow> char" where
  "digit_char d = ''0123456789'' ! d"

fun show_nat :: "nat \<Rightarrow> string" where
  "show_nat n =
     (if n < 10 then [digit_char n] else show_nat (n div 10) @ [digit_char (n mod 10)])"

declare show_nat.simps [simp del]

definition show_int :: "int \<Rightarrow> string" where
  "show_int i = (if i < 0 then ''-'' @ show_nat (nat (- i)) else show_nat (nat i))"

fun to_string :: "js_runtime \<Rightarrow> jsval \<Rightarrow> string" where
  "to_string rt Undefined = ''undefined''"
| "to_string rt Null = ''null''"
| "to_string rt (Bool b) = (if b then ''true'' else ''false'')"
| "to_string rt (Num n) =
     (if n = of_int \<lfloor>n\<rfloor> \<and> \<bar>n\<bar> < 10 ^ 21 then show_int \<lfloor>n\<rfloor> else number_text rt n)"
| "to_string rt (Str s) = s"

definition newline :: string where
  "newline = [CHR 0x0A]"

text \<open>White space of \<open>trim()\<close> among the code units below 256.\<close>

definition is_space :: "char \<Rightarrow> bool" where
  "is_space c \<longleftrightarrow> (of_char c :: nat) \<in> {9, 10, 11, 12, 13, 32, 160}"

text \<open>\<open>v.trim() !== ''\<close>; a value that is not a string has no method \<open>trim\<close>.\<close>

definition trim_not_empty :: "jsval \<Rightarrow> js_error + bool" where
  "trim_not_empty v = (case v of Str s \<Rightarrow> Inr (\<not> list_all is_space s) | _ \<Rightarrow> Inl TypeError)"

text \<open>\<open>v.toUpperCase()\<close>; a value that is not a string has no such method.\<close>

definition upper_case :: "js_runtime \<Rightarrow> jsval \<Rightarrow> js_error + string" where
  "upper_case rt v = (case v of Str s \<Rightarrow> Inr (toUpperCase rt s) | _ \<Rightarrow> Inl TypeError)"

text \<open>\<open>v > n\<close> for a number \<open>n\<close>: \<open>undefined\<close> converts to \<open>NaN\<close>, \<open>null\<close> to 0.\<close>

definition js_greater :: "js_runtime \<Rightarrow> jsval \<Rightarrow> rat \<Rightarrow> bool" where
  "js_greater rt v n =
     (case v of
        Num k \<Rightarrow> k > n
      | Str s \<Rightarrow> string_greater rt s n
      | Bool b \<Rightarrow> (if b then 1 else 0) > n
      | Null \<Rightarrow> 0 > n
      | Undefined \<Rightarrow> False)"

subsection \<open>Dates as the engine computes them\<close>

text \<open>
  The day number of ECMAScript counts days from 1 January 1970. \<open>DayFromYear\<close> is the
  day number of 1 January of a year; \<open>MakeDay\<close> adds the days of the months before
  and the day of the month, and does not ask whether the month has that day: day 30 of
  February is the day after day 29.
\<close>

definition is_leap :: "int \<Rightarrow> bool" where
  "is_leap y \<longleftrightarrow> y mod 4 = 0 \<and> (y mod 100 \<noteq> 0 \<or> y mod 400 = 0)"

definition DayFromYear :: "int \<Rightarrow> int" where
  "DayFromYear y =
     365 * (y - 1970) + (y - 1969) div 4 - (y - 1901) div 100 + (y - 1601) div 400"

definition days_in_month :: "int \<Rightarrow> int \<Rightarrow> int" where
  "days_in_month y m =
     (if m = 2 then (if is_leap y then 29 else 28)
      else if m \<in> {4, 6, 9, 11} then 30 else 31)"

definition days_before_month :: "int \<Rightarrow> int \<Rightarrow> int" where
  "days_before_month y m = (\<Sum>k \<leftarrow> [1 ..< nat m]. days_in_month y (int k))"

definition MakeDay :: "int \<Rightarrow> int \<Rightarrow> int \<Rightarrow> int" where
  "MakeDay y m d = DayFromYear y + days_before_month y m + d - 1"

definition ms_per_day :: int where
  "ms_per_day = 86400000"


text \<open>
  Year, month and day of the month of a day number, by the usual division into cycles
  of 400 years counted from 1 March: \<open>yoe_of\<close> is the year within the cycle of a day
  of the cycle, \<open>doy_of\<close> its day within that year (0 is 1 March), \<open>mp_of\<close> the
  month of a day of the year (0 is March).
\<close>

definition yoe_of :: "int \<Rightarrow> int" where
  "yoe_of doe = (doe - doe div 1460 + doe div 36524 - doe div 146096) div 365"

definition doy_of :: "int \<Rightarrow> int" where
  "doy_of doe = doe - (365 * yoe_of doe + yoe_of doe div 4 - yoe_of doe div 100)"

definition mp_of :: "int \<Rightarrow> int" where
  "mp_of doy = (5 * doy + 2) div 153"

definition civil_in_year :: "int \<Rightarrow> int \<Rightarrow> int \<times> int \<times> int" where
  "civil_in_year y doy =
     (if mp_of doy < 10
      then (y, mp_of doy + 3, doy - (153 * mp_of doy + 2) div 5 + 1)
      else (y + 1, mp_of doy - 9, doy - (153 * mp_of doy + 2) div 5 + 1))"

definition civil_from_days :: "int \<Rightarrow> int \<times> int \<times> int" where
  "civil_from_days n =
     civil_in_year (yoe_of ((n + 719468) mod 146097) + (n + 719468) div 146097 * 400)
       (doy_of ((n + 719468) mod 146097))"

text \<open>
  \<open>toLocaleDateString('en-IN', {weekday: 'long', year: 'numeric', month: 'long', day:
  'numeric'})\<close> of a local time in milliseconds writes the day that time lies in: the
  name of the day of the week, the day of the month, the name of the month and the
  year (of its era), as in \<open>Tuesday, 5 March 2024\<close>. Day number 0 was a Thursday.
\<close>

definition weekday_name :: "int \<Rightarrow> string" where
  "weekday_name n =
     [''Sunday'', ''Monday'', ''Tuesday'', ''Wednesday'', ''Thursday'', ''Friday'', ''Saturday'']
       ! nat ((n + 4) mod 7)"

definition month_name :: "int \<Rightarrow> string" where
  "month_name m =
     [''January'', ''February'', ''March'', ''April'', ''May'', ''June'', ''July'', ''August'',
      ''September'', ''October'', ''November'', ''December''] ! nat (m - 1)"

definition day_text :: "int \<Rightarrow> string" where
  "day_text n =
     (case civil_from_days n of
        (y, m, d) \<Rightarrow>
          weekday_name n @ '', '' @ show_int d @ '' '' @ month_name m @ '' '' @
          show_int (if y \<le> 0 then 1 - y else y))"

definition render_en_IN :: "int \<Rightarrow> string" where
  "render_en_IN local_ms = day_text (local_ms div ms_per_day)"

definition toLocaleDateString :: "js_runtime \<Rightarrow> int \<Rightarrow> string + string" where
  "toLocaleDateString rt t =
     (case locale_error rt of
        Some err \<Rightarrow> Inl err
      | None \<Rightarrow> Inr (render_en_IN (t + tz_offset rt)))"

text \<open>
  The regular expression of lines 440 and 501: four digits, a hyphen, two digits, a
  hyphen, two digits, and nothing else. This is also the date-only form of
  \<open>Date.parse\<close>.
\<close>

definition matches_ymd :: "string \<Rightarrow> bool" where
  "matches_ymd s \<longleftrightarrow>
     length s = 10 \<and> list_all is_digit (take 4 s) \<and> s ! 4 = CHR ''-'' \<and>
     list_all is_digit (take 2 (drop 5 s)) \<and> s ! 7 = CHR ''-'' \<and>
     list_all is_digit (drop 8 s)"

text \<open>The date-time form without offset: a date as above, \<open>T\<close>, and \<open>HH:mm:ss\<close>.\<close>

definition is_local_date_time :: "string \<Rightarrow> bool" where
  "is_local_date_time s \<longleftrightarrow>
     length s = 19 \<and> matches_ymd (take 10 s) \<and> s ! 10 = CHR ''T'' \<and>
     list_all is_digit (take 2 (drop 11 s)) \<and> s ! 13 = CHR '':'' \<and>
     list_all is_digit (take 2 (drop 14 s)) \<and> s ! 16 = CHR '':'' \<and>
     list_all is_digit (drop 17 s)"

text \<open>The number a string of digits denotes, and the fields of the two forms.\<close>

definition digits_value :: "string \<Rightarrow> int" where
  "digits_value s = foldl (\<lambda>a c. 10 * a + (int (of_char c) - 48)) 0 s"

definition year_of :: "string \<Rightarrow> int" where
  "year_of s = digits_value (take 4 s)"

definition month_of :: "string \<Rightarrow> int" where
  "month_of s = digits_value (take 2 (drop 5 s))"

definition day_of :: "string \<Rightarrow> int" where
  "day_of s = digits_value (take 2 (drop 8 s))"

definition hour_of :: "string \<Rightarrow> int" where
  "hour_of s = digits_value (take 2 (drop 11 s))"

definition minute_of :: "string \<Rightarrow> int" where
  "minute_of s = digits_value (take 2 (drop 14 s))"

definition second_of :: "string \<Rightarrow> int" where
  "second_of s = digits_value (take 2 (drop 17 s))"

text \<open>
  What the parser of the engine accepts in the fields: a month from 1 to 12, a day
  from 1 to 31 whatever the month, and a time up to 23:59:59 or exactly 24:00:00.
\<close>

definition date_fields_ok :: "string \<Rightarrow> bool" where
  "date_fields_ok s \<longleftrightarrow>
     1 \<le> month_of s \<and> month_of s \<le> 12 \<and> 1 \<le> day_of s \<and> day_of s \<le> 31"

definition time_fields_ok :: "string \<Rightarrow> bool" where
  "time_fields_ok s \<longleftrightarrow>
     (hour_of s \<le> 23 \<and> minute_of s \<le> 59 \<and> second_of s \<le> 59) \<or>
     (hour_of s = 24 \<and> minute_of s = 0 \<and> second_of s = 0)"

definition local_ms_of :: "string \<Rightarrow> int" where
  "local_ms_of s =
     MakeDay (year_of s) (month_of s) (day_of s) * ms_per_day +
     hour_of s * 3600000 + minute_of s * 60000 + second_of s * 1000"

text \<open>
  \<open>Date.parse\<close>: the date-time form without offset is local time, the date-only form
  is UTC, a string without any digit is no date (a date needs a number), and the
  engine decides on the rest.
\<close>

definition Date_parse :: "js_runtime \<Rightarrow> string \<Rightarrow> int option" where
  "Date_parse rt s =
     (if is_local_date_time s then
        (if date_fields_ok s \<and> time_fields_ok s then Some (local_ms_of s - tz_offset rt)
         else None)
      else if matches_ymd s then
        (if date_fields_ok s
         then Some (MakeDay (year_of s) (month_of s) (day_of s) * ms_per_day)
         else None)
      else if \<not> list_ex is_digit s then None
      else parse_other rt s)"

text \<open>
  \<open>new Date(v).getTime()\<close>: a string is parsed, a number is cut to an integer and is
  the time value when it is in range, \<open>null\<close> and the booleans count as numbers,
  \<open>undefined\<close> gives \<open>NaN\<close>.
\<close>

definition new_Date :: "js_runtime \<Rightarrow> jsval \<Rightarrow> int option" where
  "new_Date rt v =
     (case v of
        Str s \<Rightarrow> Date_parse rt s
      | Num n \<Rightarrow>
          (if \<bar>n\<bar> \<le> 8640000000000000 then Some (if n < 0 then \<lceil>n\<rceil> else \<lfloor>n\<rfloor>) else None)
      | Bool b \<Rightarrow> Some (if b then 1 else 0)
      | Null \<Rightarrow> Some 0
      | Undefined \<Rightarrow> None)"

subsection \<open>formatDate (server.js lines 431 to 461, and the same text again at 492 to 522)\<close>

text \<open>
  Lines 437 to 444: a bare calendar date gets the time of midnight appended before it
  is parsed.
\<close>

definition constructed_date :: "js_runtime \<Rightarrow> jsval \<Rightarrow> int option" where
  "constructed_date rt dateString =
     (case dateString of
        Str s \<Rightarrow>
          (if matches_ymd s then new_Date rt (Str (s @ ''T00:00:00''))
           else new_Date rt dateString)
      | _ \<Rightarrow> new_Date rt dateString)"

text \<open>
  The whole function. The \<open>try\<close> of line 436 catches whatever the rendering throws
  and gives the text of line 459.
\<close>

definition formatDate :: "js_runtime \<Rightarrow> jsval \<Rightarrow> string" where
  "formatDate rt dateString =
     (if \<not> truthy dateString \<or> dateString = Str ''undefined'' \<or> dateString = Str ''null''
      then ''Date not specified''
      else
        (case constructed_date rt dateString of
           None \<Rightarrow> ''Invalid date''
         | Some t \<Rightarrow>
             (case toLocaleDateString rt t of
                Inr text \<Rightarrow> text
              | Inl err \<Rightarrow> ''Date formatting error'')))"

subsection \<open>formatEventMessage (server.js lines 430 to 489)\<close>

text \<open>The fields of \<open>event\<close> and of \<open>staff\<close> that the template reads.\<close>

record event_data =
  role :: jsval
  title :: jsval
  eventType :: jsval
  event_type :: jsval
  eventDate :: jsval
  event_date :: jsval
  venue :: jsval
  clientName :: jsval
  client_name :: jsval
  totalDays :: jsval
  total_days :: jsval
  description :: jsval

record staff_data =
  full_name :: jsval
  staff_role :: jsval

text \<open>Line 465.\<close>

definition role_line :: "js_runtime \<Rightarrow> event_data \<Rightarrow> staff_data \<Rightarrow> js_error + string" where
  "role_line rt e st =
     (case upper_case rt (js_or (role e) (js_or (staff_role st) (Str ''STAFF''))) of
        Inl err \<Rightarrow> Inl err
      | Inr r \<Rightarrow>
          Inr (''You have been assigned as *'' @ r @ ''* for the following event:'' @
               newline @ newline))"

text \<open>Line 468, for the event, and lines 531 to 533, for the due date of a task.\<close>

definition event_date_line :: "js_runtime \<Rightarrow> event_data \<Rightarrow> string" where
  "event_date_line rt e =
     ''*Event Date:* '' @ formatDate rt (js_or (eventDate e) (event_date e)) @ newline"


text \<open>Lines 470 to 472.\<close>

definition venue_part :: "js_runtime \<Rightarrow> event_data \<Rightarrow> js_error + string" where
  "venue_part rt e =
     (if truthy (venue e) then
        (case trim_not_empty (venue e) of
           Inl err \<Rightarrow> Inl err
         | Inr b \<Rightarrow> Inr (if b then ''*Venue:* '' @ to_string rt (venue e) @ newline else []))
      else Inr [])"

text \<open>Lines 474 to 476.\<close>

definition client_part :: "js_runtime \<Rightarrow> event_data \<Rightarrow> string" where
  "client_part rt e =
     (if truthy (js_or (clientName e) (client_name e))
      then ''*Client Name:* '' @ to_string rt (js_or (clientName e) (client_name e)) @ newline
      else [])"

text \<open>
  Lines 478 to 480: the line is written when one of the two spellings is truthy and
  one of them is greater than 1; the value written is the first truthy one.
\<close>

definition duration_shown :: "event_data \<Rightarrow> jsval" where
  "duration_shown e = js_or (totalDays e) (total_days e)"

definition duration_included :: "js_runtime \<Rightarrow> event_data \<Rightarrow> bool" where
  "duration_included rt e \<longleftrightarrow>
     truthy (js_or (totalDays e) (total_days e)) \<and>
     (js_greater rt (totalDays e) 1 \<or> js_greater rt (total_days e) 1)"

definition duration_part :: "js_runtime \<Rightarrow> event_data \<Rightarrow> string" where
  "duration_part rt e =
     (if duration_included rt e
      then ''*Event Duration:* '' @ to_string rt (duration_shown e) @ '' days'' @ newline
      else [])"

text \<open>Lines 482 to 484.\<close>

definition description_part :: "js_runtime \<Rightarrow> event_data \<Rightarrow> js_error + string" where
  "description_part rt e =
     (if truthy (description e) then
        (case trim_not_empty (description e) of
           Inl err \<Rightarrow> Inl err
         | Inr b \<Rightarrow>
             Inr (if b then newline @ ''*Additional Details:*'' @ newline @ ''_'' @
                            to_string rt (description e) @ ''_'' @ newline
                  else []))
      else Inr [])"

text \<open>The message, in the order of the source; a \<open>TypeError\<close> of a part ends it.\<close>

definition formatEventMessage :: "js_runtime \<Rightarrow> event_data \<Rightarrow> staff_data \<Rightarrow> js_error + string" where
  "formatEventMessage rt e st =
     (case role_line rt e st of
        Inl err \<Rightarrow> Inl err
      | Inr assigned \<Rightarrow>
     (case venue_part rt e of
        Inl err \<Rightarrow> Inl err
      | Inr at_venue \<Rightarrow>
     (case description_part rt e of
        Inl err \<Rightarrow> Inl err
      | Inr details \<Rightarrow>
          Inr (''*EVENT ASSIGNMENT*'' @ newline @ newline @
               ''Hello *'' @ to_string rt (full_name st) @ ''*,'' @ newline @ newline @
               assigned @
               ''*Event Title:* '' @ to_string rt (js_or (title e) (Str ''Not specified'')) @
                 newline @
               ''*Event Type:* '' @
                 to_string rt (js_or (eventType e) (js_or (event_type e) (Str ''Not specified''))) @
                 newline @
               event_date_line rt e @
               at_venue @
               client_part rt e @
               duration_part rt e @
               details @
               newline @ ''Thank you for your professionalism and commitment.''))))"

subsection \<open>Facts about the templates\<close>

text \<open>
  Two runtimes for examples, one east and one west of Greenwich: India (five and a half
  hours ahead of UTC) and New York in winter (five hours behind). Both upper-case the
  ASCII letters; what the examples do not use is left trivial.
\<close>

definition ascii_upper :: "string \<Rightarrow> string" where
  "ascii_upper =
     map (\<lambda>c. if 97 \<le> (of_char c :: nat) \<and> (of_char c :: nat) \<le> 122
               then char_of ((of_char c :: nat) - 32) else c)"


definition new_york_runtime :: js_runtime where
  "new_york_runtime =
     \<lparr> tz_offset = - 18000000, parse_other = (\<lambda>s. None), locale_error = None,
       toUpperCase = ascii_upper, string_greater = (\<lambda>s n. False), number_text = (\<lambda>n. []) \<rparr>"

lemma local_form:
  assumes "matches_ymd s"
  shows "is_local_date_time (s @ ''T00:00:00'')"
proof -
  have l: "length s = 10" using assms by (simp add: matches_ymd_def)
  then have "take 10 (s @ ''T00:00:00'') = s" "drop 11 (s @ ''T00:00:00'') = ''00:00:00''"
    "drop 14 (s @ ''T00:00:00'') = ''00:00''" "drop 17 (s @ ''T00:00:00'') = ''00''"
    "(s @ ''T00:00:00'') ! 10 = CHR ''T''" "(s @ ''T00:00:00'') ! 13 = CHR '':''"
    "(s @ ''T00:00:00'') ! 16 = CHR '':''"
    by (simp_all add: nth_append)
  then show ?thesis
    using assms l by (simp add: is_local_date_time_def is_digit_def)
qed

text \<open>The fields of a bare date with the time of midnight appended.\<close>

lemma midnight_fields:
  assumes "length s = 10"
  shows "year_of (s @ ''T00:00:00'') = year_of s"
    and "month_of (s @ ''T00:00:00'') = month_of s"
    and "day_of (s @ ''T00:00:00'') = day_of s"
    and "hour_of (s @ ''T00:00:00'') = 0"
    and "minute_of (s @ ''T00:00:00'') = 0"
    and "second_of (s @ ''T00:00:00'') = 0"
  using assms
  by (simp_all add: year_of_def month_of_def day_of_def hour_of_def minute_of_def
      second_of_def digits_value_def)

lemma midnight_parse:
  assumes "matches_ymd s"
  shows "Date_parse rt (s @ ''T00:00:00'') =
     (if date_fields_ok s
      then Some (MakeDay (year_of s) (month_of s) (day_of s) * ms_per_day - tz_offset rt)
      else None)"
proof -
  have l: "length s = 10" using assms by (simp add: matches_ymd_def)
  show ?thesis
    using local_form [OF assms]
    by (simp add: Date_parse_def date_fields_ok_def time_fields_ok_def local_ms_of_def
        midnight_fields [OF l])
qed

lemma constructed_date_ymd:
  "matches_ymd s \<Longrightarrow>
   constructed_date rt (Str s) =
     (if date_fields_ok s
      then Some (MakeDay (year_of s) (month_of s) (day_of s) * ms_per_day - tz_offset rt)
      else None)"
  by (simp add: constructed_date_def new_Date_def midnight_parse)

lemma ymd_not_placeholder:
  "matches_ymd s \<Longrightarrow> truthy (Str s) \<and> s \<noteq> ''undefined'' \<and> s \<noteq> ''null''"
  by (auto simp: matches_ymd_def)

lemma render_midnight: "render_en_IN (n * ms_per_day) = day_text n"
  by (simp add: render_en_IN_def ms_per_day_def)

lemma formatDate_ymd:
  assumes "matches_ymd s"
  shows "formatDate rt (Str s) =
     (if date_fields_ok s
      then (case locale_error rt of
              None \<Rightarrow> day_text (MakeDay (year_of s) (month_of s) (day_of s))
            | Some err \<Rightarrow> ''Date formatting error'')
      else ''Invalid date'')"
  using ymd_not_placeholder [OF assms]
  by (simp add: formatDate_def constructed_date_ymd [OF assms] toLocaleDateString_def
      render_midnight split: option.split)



lemma not_a_date_no_digit: "\<not> list_ex is_digit ''not-a-date''"
  by (simp add: is_digit_def)

text \<open>Evaluation of the examples.\<close>

lemma matches_ymd_examples:
  "matches_ymd ''2024-03-05''" "matches_ymd ''2024-02-30''" "matches_ymd ''2024-13-01''"
  by (simp_all add: matches_ymd_def is_digit_def)

lemma fields_examples:
  "year_of ''2024-03-05'' = 2024" "month_of ''2024-03-05'' = 3" "day_of ''2024-03-05'' = 5"
  "year_of ''2024-02-30'' = 2024" "month_of ''2024-02-30'' = 2" "day_of ''2024-02-30'' = 30"
  "month_of ''2024-13-01'' = 13"
  by (simp_all add: year_of_def month_of_def day_of_def digits_value_def)

lemma upt_examples: "[Suc 0 ..< 3] = [Suc 0, 2]" "[Suc 0 ..< 2] = [Suc 0]"
  by (simp_all add: upt_rec)

lemma MakeDay_examples: "MakeDay 2024 3 5 = 19787" "MakeDay 2024 2 30 = 19783"
  by (simp_all add: MakeDay_def DayFromYear_def days_before_month_def days_in_month_def
      is_leap_def upt_examples)

lemma show_int_examples: "show_int 1 = ''1''" "show_int 5 = ''5''" "show_int 4 = ''4''"
  "show_int 2024 = ''2024''"
  by (simp_all add: show_int_def show_nat.simps digit_char_def)

lemma civil_examples:
  "civil_from_days 19787 = (2024, 3, 5)" "civil_from_days 19783 = (2024, 3, 1)"
  "civil_from_days 19786 = (2024, 3, 4)"
  by (simp_all add: civil_from_days_def civil_in_year_def yoe_of_def doy_of_def mp_of_def)

lemma day_text_examples:
  "day_text 19787 = ''Tuesday, 5 March 2024''"
  "day_text 19783 = ''Friday, 1 March 2024''"
  "day_text 19786 = ''Monday, 4 March 2024''"
  by (simp_all add: day_text_def civil_examples weekday_name_def month_name_def
      show_int_examples)

text \<open>
  Why line 441 appends the time: the date-only form is UTC, and west of Greenwich the
  midnight of UTC lies in the evening before. The same string gives the day it names
  through \<open>formatDate\<close> and the day before when it is handed to \<open>Date\<close> as it is.
\<close>

lemma bare_date_west_of_Greenwich:
  "formatDate new_york_runtime (Str ''2024-03-05'') = ''Tuesday, 5 March 2024'' \<and>
   new_Date new_york_runtime (Str ''2024-03-05'') = Some 1709596800000 \<and>
   toLocaleDateString new_york_runtime 1709596800000 = Inr ''Monday, 4 March 2024''"
proof -
  have a: "formatDate new_york_runtime (Str ''2024-03-05'') = ''Tuesday, 5 March 2024''"
    by (simp add: formatDate_ymd matches_ymd_examples date_fields_ok_def fields_examples
        MakeDay_examples day_text_examples new_york_runtime_def)
  have f: "\<not> is_local_date_time ''2024-03-05''"
    by (simp add: is_local_date_time_def)
  have b: "new_Date new_york_runtime (Str ''2024-03-05'') = Some 1709596800000"
    by (simp add: new_Date_def Date_parse_def f matches_ymd_examples date_fields_ok_def
        fields_examples MakeDay_examples ms_per_day_def)
  have c: "toLocaleDateString new_york_runtime 1709596800000 = Inr ''Monday, 4 March 2024''"
    by (simp add: toLocaleDateString_def new_york_runtime_def render_en_IN_def ms_per_day_def
        day_text_examples)
  show ?thesis using a b c by simp
qed




text \<open>An event with both spellings of the duration: one day under one, five under the other.\<close>

definition two_spellings :: event_data where
  "two_spellings =
     \<lparr> role = Undefined, title = Str ''Gala'', eventType = Undefined, event_type = Undefined,
       eventDate = Undefined, event_date = Undefined, venue = Undefined,
       clientName = Undefined, client_name = Undefined,
       totalDays = Num 1, total_days = Num 5, description = Undefined \<rparr>"

definition asha :: staff_data where
  "asha = \<lparr> full_name = Str ''Asha'', staff_role = Str ''usher'' \<rparr>"

text \<open>
  C8 fails on the code. For an event that carries both spellings, \<open>totalDays\<close> 1 and
  \<open>total_days\<close> 5, the condition of line 478 holds through the second spelling and
  line 479 prints the first: the message has the line \<open>Event Duration: 1 days\<close>, whose
  value is not greater than 1.
\<close>

theorem duration_line_shows_one_day:
  "duration_included rt two_spellings \<and>
   duration_shown two_spellings = Num 1 \<and>
   \<not> js_greater rt (duration_shown two_spellings) 1 \<and>
   duration_part rt two_spellings = ''*Event Duration:* 1 days'' @ newline \<and>
   formatEventMessage rt two_spellings asha =
     Inr (''*EVENT ASSIGNMENT*'' @ newline @ newline @
          ''Hello *Asha*,'' @ newline @ newline @
          ''You have been assigned as *'' @ toUpperCase rt ''usher'' @
          ''* for the following event:'' @ newline @ newline @
          ''*Event Title:* Gala'' @ newline @
          ''*Event Type:* Not specified'' @ newline @
          ''*Event Date:* Date not specified'' @ newline @
          ''*Event Duration:* 1 days'' @ newline @
          newline @ ''Thank you for your professionalism and commitment.'')"
proof -
  have i: "duration_included rt two_spellings"
    by (simp add: duration_included_def two_spellings_def js_or_def js_greater_def)
  have s: "duration_shown two_spellings = Num 1"
    by (simp add: duration_shown_def two_spellings_def js_or_def)
  have g: "\<not> js_greater rt (duration_shown two_spellings) 1"
    unfolding s by (simp add: js_greater_def)
  have d: "duration_part rt two_spellings = ''*Event Duration:* 1 days'' @ newline"
    using i s by (simp add: duration_part_def show_int_examples)
  have r: "role_line rt two_spellings asha =
      Inr (''You have been assigned as *'' @ toUpperCase rt ''usher'' @
           ''* for the following event:'' @ newline @ newline)"
    by (simp add: role_line_def upper_case_def js_or_def two_spellings_def asha_def)
  have v: "venue_part rt two_spellings = Inr []" "description_part rt two_spellings = Inr []"
    "client_part rt two_spellings = []"
    by (simp_all add: venue_part_def description_part_def client_part_def two_spellings_def
        js_or_def)
  have dl: "event_date_line rt two_spellings = ''*Event Date:* Date not specified'' @ newline"
    by (simp add: event_date_line_def formatDate_def js_or_def two_spellings_def)
  have t: "to_string rt (js_or (title two_spellings) (Str ''Not specified'')) = ''Gala''"
    "to_string rt (js_or (eventType two_spellings)
       (js_or (event_type two_spellings) (Str ''Not specified''))) = ''Not specified''"
    "to_string rt (full_name asha) = ''Asha''"
    by (simp_all add: js_or_def two_spellings_def asha_def)
  have m: "formatEventMessage rt two_spellings asha =
     Inr (''*EVENT ASSIGNMENT*'' @ newline @ newline @
          ''Hello *Asha*,'' @ newline @ newline @
          ''You have been assigned as *'' @ toUpperCase rt ''usher'' @
          ''* for the following event:'' @ newline @ newline @
          ''*Event Title:* Gala'' @ newline @
          ''*Event Type:* Not specified'' @ newline @
          ''*Event Date:* Date not specified'' @ newline @
          ''*Event Duration:* 1 days'' @ newline @
          newline @ ''Thank you for your professionalism and commitment.'')"
    unfolding formatEventMessage_def r v d dl t by simp
  show ?thesis using i s g d m by blast
qed

text \<open>
  With one spelling only, the line is written exactly when the value is greater than
  1 (a number greater than 1 is truthy), and the value written is that value.
\<close>

lemma duration_single_spelling:
  assumes "total_days e = Undefined" and "totalDays e = Num n"
  shows "duration_included rt e \<longleftrightarrow> 1 < n" and "duration_shown e = Num n \<or> n = 0"
  using assms by (auto simp: duration_included_def duration_shown_def js_or_def js_greater_def)

end
